theory Spec2Isabelle
  imports Complex_Main "HOL-Library.Product_Lexorder" "HOL-Library.List_Lexorder"
    "HOL-Library.Char_ord"
begin

section \<open>Trace-based correlation mining: data model\<close>

text \<open>
  The development follows \<^verbatim>\<open>pm4py/algo/discovery/correlation_mining/versions/trace_based.py\<close>.
  Python values that the functions read out of events are numbers, strings or datetimes.
  Python floats and ints are idealised as exact rationals: the timestamps are only compared
  and subtracted, the counters are machine-independent integers, and the two divisions
  (\<^verbatim>\<open>count / float(total)\<close>, \<^verbatim>\<open>mean\<close>) are taken without rounding.
\<close>

datatype pyval = PyStr string | PyNum rat | PyDatetime rat

text \<open>The exceptions that the modelled statements can raise.\<close>

datatype error =
  NameError string | UnboundLocalError string | KeyError string | IndexError | TypeError
  | AttributeError

text \<open>An event is a dictionary from attribute names to values.\<close>

type_synonym event = "string \<rightharpoonup> pyval"

text \<open>
  \<^verbatim>\<open>trace_grouped_list\<close>: for each trace, for each activity index, the events of that
  activity.
\<close>

type_synonym grouped_trace = "event list list"

type_synonym matrix = "rat list list"

text \<open>\<^verbatim>\<open>xs[i]\<close> for a non-negative index: out of range raises IndexError.\<close>

definition py_index :: "'a list \<Rightarrow> nat \<Rightarrow> error + 'a" where
  "py_index xs i = (if i < length xs then Inr (xs ! i) else Inl IndexError)"

text \<open>
  \<^verbatim>\<open>[x[timestamp_key] for x in evs]\<close>: a missing key raises KeyError at the first event
  that lacks it. The timestamps are numbers (seconds); a value of another kind is outside
  the typed model and is rejected where it is read.
\<close>

fun timestamps :: "string \<Rightarrow> event list \<Rightarrow> error + rat list" where
  "timestamps timestamp_key [] = Inr []"
| "timestamps timestamp_key (x # xs) =
     (case x timestamp_key of
        None \<Rightarrow> Inl (KeyError timestamp_key)
      | Some (PyNum t) \<Rightarrow>
          (case timestamps timestamp_key xs of Inl e \<Rightarrow> Inl e | Inr ts \<Rightarrow> Inr (t # ts))
      | Some _ \<Rightarrow> Inl TypeError)"

text \<open>
  \<^verbatim>\<open>np.zeros((r, c))\<close> and the cell accesses \<^verbatim>\<open>ret[i, j]\<close>. The loops only access cells
  with both indices below \<open>len(activities)\<close>, the shape of the matrix, so no access is out
  of range.
\<close>

definition np_zeros :: "nat \<Rightarrow> nat \<Rightarrow> matrix" where
  "np_zeros r c = replicate r (replicate c 0)"

definition mat_get :: "matrix \<Rightarrow> nat \<Rightarrow> nat \<Rightarrow> rat" where
  "mat_get m i j = m ! i ! j"

definition mat_set :: "matrix \<Rightarrow> nat \<Rightarrow> nat \<Rightarrow> rat \<Rightarrow> matrix" where
  "mat_set m i j v = m[i := (m ! i)[j := v]]"

text \<open>A matrix of shape \<open>n \<times> n\<close>.\<close>

definition square :: "nat \<Rightarrow> matrix \<Rightarrow> bool" where
  "square n m = (length m = n \<and> list_all (\<lambda>row. length row = n) m)"

section \<open>The precede/succeed matrix\<close>

text \<open>
  Lines 120--128: the two-pointer merge of one trace. \<open>ps_inner\<close> is the inner
  \<^verbatim>\<open>while z < len(aj)\<close> loop and returns the pointer \<open>z\<close> at which it stops;
  \<open>ps_outer\<close> is the \<^verbatim>\<open>while k < len(ai)\<close> loop and returns \<open>count\<close>.
  The pointer never exceeds \<open>len(aj)\<close>, so \<open>len(aj) - z\<close> is a subtraction of naturals
  that never truncates.
\<close>

function ps_inner :: "rat list \<Rightarrow> rat list \<Rightarrow> nat \<Rightarrow> nat \<Rightarrow> nat" where
  "ps_inner ai aj k z =
     (if z < length aj then
        (if ai ! k < aj ! z then z else ps_inner ai aj k (z + 1))
      else z)"
  by pat_completeness auto
termination
  by (relation "measure (\<lambda>(ai, aj, k, z). length aj - z)") auto

declare ps_inner.simps [simp del]

function ps_outer :: "rat list \<Rightarrow> rat list \<Rightarrow> nat \<Rightarrow> nat \<Rightarrow> nat \<Rightarrow> nat" where
  "ps_outer ai aj k z count =
     (if k < length ai then
        (let z' = ps_inner ai aj k z
         in ps_outer ai aj (k + 1) z' (count + (length aj - z')))
      else count)"
  by pat_completeness auto
termination
  by (relation "measure (\<lambda>(ai, aj, k, z, count). length ai - k)") auto

declare ps_outer.simps [simp del]

text \<open>
  Lines 116--117: \<^verbatim>\<open>ai = [x[timestamp_key] for x in tr[i]]\<close> and the same for \<open>aj\<close>,
  evaluated in this order, each of which may raise.
\<close>

definition occurrence_lists ::
  "nat \<Rightarrow> nat \<Rightarrow> string \<Rightarrow> grouped_trace \<Rightarrow> error + (rat list \<times> rat list)" where
  "occurrence_lists i j timestamp_key tr =
     (case py_index tr i of
        Inl e \<Rightarrow> Inl e
      | Inr gi \<Rightarrow>
          (case timestamps timestamp_key gi of
             Inl e \<Rightarrow> Inl e
           | Inr ai \<Rightarrow>
               (case py_index tr j of
                  Inl e \<Rightarrow> Inl e
                | Inr gj \<Rightarrow>
                    (case timestamps timestamp_key gj of
                       Inl e \<Rightarrow> Inl e
                     | Inr aj \<Rightarrow> Inr (ai, aj)))))"

text \<open>
  Lines 118--128: the body of the loop over the traces for one pair \<open>(i, j)\<close>, on
  \<open>(count, total)\<close>.
\<close>

definition ps_trace_step :: "rat list \<Rightarrow> rat list \<Rightarrow> nat \<times> nat \<Rightarrow> nat \<times> nat" where
  "ps_trace_step ai aj ct =
     (if ai \<noteq> [] \<and> aj \<noteq> [] then
        (ps_outer ai aj 0 0 (fst ct), snd ct + length ai * length aj)
      else ct)"

text \<open>Line 115: \<^verbatim>\<open>for tr in trace_grouped_list\<close>.\<close>

fun ps_traces ::
  "nat \<Rightarrow> nat \<Rightarrow> string \<Rightarrow> grouped_trace list \<Rightarrow> nat \<times> nat \<Rightarrow> error + (nat \<times> nat)" where
  "ps_traces i j timestamp_key [] ct = Inr ct"
| "ps_traces i j timestamp_key (tr # trs) ct =
     (case occurrence_lists i j timestamp_key tr of
        Inl e \<Rightarrow> Inl e
      | Inr (ai, aj) \<Rightarrow> ps_traces i j timestamp_key trs (ps_trace_step ai aj ct))"

text \<open>Lines 129--131: the two cells written for the pair \<open>(i, j)\<close>.\<close>

definition ps_write :: "matrix \<Rightarrow> nat \<Rightarrow> nat \<Rightarrow> nat \<times> nat \<Rightarrow> matrix" where
  "ps_write ret i j ct =
     (let ret1 = (if snd ct > 0 then mat_set ret i j (of_nat (fst ct) / of_nat (snd ct)) else ret)
      in mat_set ret1 j i (1 - mat_get ret1 i j))"

text \<open>Line 112: \<^verbatim>\<open>for j in range(i + 1, len(activities))\<close>, over the list of the \<open>j\<close>.\<close>

fun ps_j_loop ::
  "nat \<Rightarrow> string \<Rightarrow> grouped_trace list \<Rightarrow> nat list \<Rightarrow> matrix \<Rightarrow> error + matrix" where
  "ps_j_loop i timestamp_key tgl [] ret = Inr ret"
| "ps_j_loop i timestamp_key tgl (j # js) ret =
     (case ps_traces i j timestamp_key tgl (0, 0) of
        Inl e \<Rightarrow> Inl e
      | Inr ct \<Rightarrow> ps_j_loop i timestamp_key tgl js (ps_write ret i j ct))"

text \<open>Line 111: \<^verbatim>\<open>for i in range(len(activities))\<close>.\<close>

fun ps_i_loop ::
  "nat \<Rightarrow> string \<Rightarrow> grouped_trace list \<Rightarrow> nat list \<Rightarrow> matrix \<Rightarrow> error + matrix" where
  "ps_i_loop n timestamp_key tgl [] ret = Inr ret"
| "ps_i_loop n timestamp_key tgl (i # is) ret =
     (case ps_j_loop i timestamp_key tgl [i + 1..<n] ret of
        Inl e \<Rightarrow> Inl e
      | Inr ret' \<Rightarrow> ps_i_loop n timestamp_key tgl is ret')"

definition get_precede_succeed_matrix ::
  "'a list \<Rightarrow> grouped_trace list \<Rightarrow> string \<Rightarrow> error + matrix" where
  "get_precede_succeed_matrix activities trace_grouped_list timestamp_key =
     (let n = length activities
      in ps_i_loop n timestamp_key trace_grouped_list [0..<n] (np_zeros n n))"

text \<open>
  The value that lines 129--130 leave in \<open>ret[i, j]\<close> when the cell held 0 before:
  \<open>count / total\<close> when \<open>total > 0\<close>, and the untouched 0 otherwise.
\<close>

definition ps_ratio :: "nat \<times> nat \<Rightarrow> rat" where
  "ps_ratio ct = (if snd ct > 0 then of_nat (fst ct) / of_nat (snd ct) else 0)"

text \<open>
  The quantity that the two-pointer merge is meant to compute, written out naively:
  \<open>later_count a aj\<close> is the number of occurrences in \<open>aj\<close> strictly later than \<open>a\<close>,
  and \<open>naive_count ai aj\<close> the number of ordered pairs (occurrence of \<open>i\<close>, occurrence
  of \<open>j\<close>) of one trace with the \<open>i\<close>-timestamp strictly earlier.
\<close>

definition later_count :: "rat \<Rightarrow> rat list \<Rightarrow> nat" where
  "later_count a aj = length (filter (\<lambda>b. a < b) aj)"

definition naive_count :: "rat list \<Rightarrow> rat list \<Rightarrow> nat" where
  "naive_count ai aj = length (filter (\<lambda>(a, b). a < b) (List.product ai aj))"

text \<open>
  The lists \<open>(ai, aj)\<close> that lines 116--117 build, for all traces in order; an exception
  raised for one trace is the result.
\<close>

fun all_occurrence_lists ::
  "nat \<Rightarrow> nat \<Rightarrow> string \<Rightarrow> grouped_trace list \<Rightarrow> error + (rat list \<times> rat list) list" where
  "all_occurrence_lists i j timestamp_key [] = Inr []"
| "all_occurrence_lists i j timestamp_key (tr # trs) =
     (case occurrence_lists i j timestamp_key tr of
        Inl e \<Rightarrow> Inl e
      | Inr p \<Rightarrow>
          (case all_occurrence_lists i j timestamp_key trs of
             Inl e \<Rightarrow> Inl e
           | Inr ps \<Rightarrow> Inr (p # ps)))"

text \<open>
  The traces where both lists are non-empty, the naive count summed over them, and
  \<open>|ai| * |aj|\<close> summed over them.
\<close>

definition qualifying :: "(rat list \<times> rat list) list \<Rightarrow> (rat list \<times> rat list) list" where
  "qualifying pairs = filter (\<lambda>(ai, aj). ai \<noteq> [] \<and> aj \<noteq> []) pairs"

definition naive_count_total :: "(rat list \<times> rat list) list \<Rightarrow> nat" where
  "naive_count_total pairs = sum_list (map (\<lambda>(ai, aj). naive_count ai aj) (qualifying pairs))"

definition pair_total :: "(rat list \<times> rat list) list \<Rightarrow> nat" where
  "pair_total pairs = sum_list (map (\<lambda>(ai, aj). length ai * length aj) (qualifying pairs))"

section \<open>The duration matrix\<close>

text \<open>
  Lines 164--173, the FIFO scan of one trace. \<open>fifo_inner\<close> is the inner
  \<^verbatim>\<open>while z < len(aj)\<close> loop: it returns the sample list and the pointer \<open>z\<close> after
  the \<^verbatim>\<open>break\<close> or after the loop condition fails.
\<close>

function fifo_inner :: "rat list \<Rightarrow> rat list \<Rightarrow> nat \<Rightarrow> nat \<Rightarrow> rat list \<Rightarrow> rat list \<times> nat" where
  "fifo_inner ai aj k z times0 =
     (if z < length aj then
        (if ai ! k < aj ! z then (times0 @ [aj ! z - ai ! k], z + 1)
         else fifo_inner ai aj k (z + 1) times0)
      else (times0, z))"
  by pat_completeness auto
termination
  by (relation "measure (\<lambda>(ai, aj, k, z, times0). length aj - z)") auto

declare fifo_inner.simps [simp del]

function fifo_outer :: "rat list \<Rightarrow> rat list \<Rightarrow> nat \<Rightarrow> nat \<Rightarrow> rat list \<Rightarrow> rat list" where
  "fifo_outer ai aj k z times0 =
     (if k < length ai then
        (case fifo_inner ai aj k z times0 of
           (times0', z') \<Rightarrow> fifo_outer ai aj (k + 1) z' times0')
      else times0)"
  by pat_completeness auto
termination
  by (relation "measure (\<lambda>(ai, aj, k, z, times0). length ai - k)") auto

declare fifo_outer.simps [simp del]

text \<open>
  Lines 175--184, the LIFO scan of one trace. The pointers run down to \<open>-1\<close>, so they are
  integers; a list is only read at a pointer that the loop conditions have shown to be
  non-negative, and neither pointer ever exceeds its start value \<open>len - 1\<close>.
  \<open>lifo_inner\<close> is the inner \<^verbatim>\<open>while k >= 0\<close> loop and returns the sample list and
  the pointer \<open>k\<close>.
\<close>

function lifo_inner :: "rat list \<Rightarrow> rat list \<Rightarrow> int \<Rightarrow> int \<Rightarrow> rat list \<Rightarrow> rat list \<times> int" where
  "lifo_inner ai aj k z times1 =
     (if k \<ge> 0 then
        (if ai ! nat k < aj ! nat z then (times1 @ [aj ! nat z - ai ! nat k], k - 1)
         else lifo_inner ai aj (k - 1) z times1)
      else (times1, k))"
  by pat_completeness auto
termination
  by (relation "measure (\<lambda>(ai, aj, k, z, times1). nat (k + 1))") auto

declare lifo_inner.simps [simp del]

function lifo_outer :: "rat list \<Rightarrow> rat list \<Rightarrow> int \<Rightarrow> int \<Rightarrow> rat list \<Rightarrow> rat list" where
  "lifo_outer ai aj k z times1 =
     (if z \<ge> 0 then
        (case lifo_inner ai aj k z times1 of
           (times1', k') \<Rightarrow> lifo_outer ai aj k' (z - 1) times1')
      else times1)"
  by pat_completeness auto
termination
  by (relation "measure (\<lambda>(ai, aj, k, z, times1). nat (z + 1))") auto

declare lifo_outer.simps [simp del]

text \<open>
  Lines 162--184: the body of the loop over the traces for one ordered pair, on
  \<open>(times0, times1)\<close>.
\<close>

definition dur_trace_step ::
  "rat list \<Rightarrow> rat list \<Rightarrow> rat list \<times> rat list \<Rightarrow> rat list \<times> rat list" where
  "dur_trace_step ai aj tt =
     (if ai \<noteq> [] \<and> aj \<noteq> [] then
        (fifo_outer ai aj 0 0 (fst tt),
         lifo_outer ai aj (int (length ai) - 1) (int (length aj) - 1) (snd tt))
      else tt)"

text \<open>Line 159: \<^verbatim>\<open>for tr in trace_grouped_list\<close>.\<close>

fun dur_traces ::
  "nat \<Rightarrow> nat \<Rightarrow> string \<Rightarrow> grouped_trace list \<Rightarrow> rat list \<times> rat list \<Rightarrow>
   error + (rat list \<times> rat list)" where
  "dur_traces i j timestamp_key [] tt = Inr tt"
| "dur_traces i j timestamp_key (tr # trs) tt =
     (case occurrence_lists i j timestamp_key tr of
        Inl e \<Rightarrow> Inl e
      | Inr (ai, aj) \<Rightarrow> dur_traces i j timestamp_key trs (dur_trace_step ai aj tt))"

text \<open>
  Lines 185--186: \<^verbatim>\<open>mean(times) if times else 0\<close>, with \<^verbatim>\<open>statistics.mean\<close> the sum
  divided by the length.
\<close>

definition mean_or_0 :: "rat list \<Rightarrow> rat" where
  "mean_or_0 samples =
     (if samples \<noteq> [] then sum_list samples / of_nat (length samples) else 0)"

text \<open>Lines 156--187: the body of the loop over \<open>j\<close>.\<close>

fun dur_j_loop ::
  "nat \<Rightarrow> string \<Rightarrow> grouped_trace list \<Rightarrow> nat list \<Rightarrow> matrix \<Rightarrow> error + matrix" where
  "dur_j_loop i timestamp_key tgl [] ret = Inr ret"
| "dur_j_loop i timestamp_key tgl (j # js) ret =
     (if \<not> i = j then
        (case dur_traces i j timestamp_key tgl ([], []) of
           Inl e \<Rightarrow> Inl e
         | Inr tt \<Rightarrow>
             dur_j_loop i timestamp_key tgl js
               (mat_set ret i j (min (mean_or_0 (fst tt)) (mean_or_0 (snd tt)))))
      else dur_j_loop i timestamp_key tgl js ret)"

text \<open>Line 154: \<^verbatim>\<open>for i in range(len(activities))\<close>.\<close>

fun dur_i_loop ::
  "nat \<Rightarrow> string \<Rightarrow> grouped_trace list \<Rightarrow> nat list \<Rightarrow> matrix \<Rightarrow> error + matrix" where
  "dur_i_loop n timestamp_key tgl [] ret = Inr ret"
| "dur_i_loop n timestamp_key tgl (i # is) ret =
     (case dur_j_loop i timestamp_key tgl [0..<n] ret of
        Inl e \<Rightarrow> Inl e
      | Inr ret' \<Rightarrow> dur_i_loop n timestamp_key tgl is ret')"

definition get_duration_matrix ::
  "'a list \<Rightarrow> grouped_trace list \<Rightarrow> string \<Rightarrow> error + matrix" where
  "get_duration_matrix activities trace_grouped_list timestamp_key =
     (let n = length activities
      in dur_i_loop n timestamp_key trace_grouped_list [0..<n] (np_zeros n n))"

text \<open>
  The samples that one trace contributes (the two scans started on empty lists), and the
  samples of a whole log: the scans only run for traces where both lists are non-empty.
\<close>

definition fifo_match :: "rat list \<Rightarrow> rat list \<Rightarrow> rat list" where
  "fifo_match ai aj = fifo_outer ai aj 0 0 []"

definition lifo_match :: "rat list \<Rightarrow> rat list \<Rightarrow> rat list" where
  "lifo_match ai aj = lifo_outer ai aj (int (length ai) - 1) (int (length aj) - 1) []"

definition fifo_samples :: "(rat list \<times> rat list) list \<Rightarrow> rat list" where
  "fifo_samples pairs = concat (map (\<lambda>(ai, aj). fifo_match ai aj) (qualifying pairs))"

definition lifo_samples :: "(rat list \<times> rat list) list \<Rightarrow> rat list" where
  "lifo_samples pairs = concat (map (\<lambda>(ai, aj). lifo_match ai aj) (qualifying pairs))"

text \<open>The value that line 187 writes: the smaller of the two means.\<close>

definition duration_value :: "(rat list \<times> rat list) list \<Rightarrow> rat" where
  "duration_value pairs = min (mean_or_0 (fifo_samples pairs)) (mean_or_0 (lifo_samples pairs))"

text \<open>
  The LIFO match as the specification words it: scan the occurrences of \<open>i\<close> in decreasing
  time order; each one consumes the latest not yet consumed occurrence of \<open>j\<close> whose
  timestamp is strictly greater, if there is one, and records the gap.
  \<open>take_latest_after a js\<close> picks that occurrence out of the remaining ones \<open>js\<close>.
\<close>

definition take_latest_after :: "rat \<Rightarrow> rat list \<Rightarrow> (rat \<times> rat list) option" where
  "take_latest_after a js =
     (let q = filter (\<lambda>b. a < b) js
      in if q = [] then None else Some (Max (set q), remove1 (Max (set q)) js))"

fun lifo_scan :: "rat list \<Rightarrow> rat list \<Rightarrow> rat list" where
  "lifo_scan [] js = []"
| "lifo_scan (a # as) js =
     (case take_latest_after a js of
        None \<Rightarrow> lifo_scan as js
      | Some (b, js') \<Rightarrow> (b - a) # lifo_scan as js')"

definition lifo_spec :: "rat list \<Rightarrow> rat list \<Rightarrow> rat list" where
  "lifo_spec ai aj = lifo_scan (rev (sort ai)) aj"

text \<open>
  The FIFO match as the specification words it: scan the occurrences of \<open>i\<close> in increasing
  time order; each one consumes the earliest not yet consumed occurrence of \<open>j\<close> whose
  timestamp is strictly greater, if there is one, and records the gap.
\<close>

definition take_earliest_after :: "rat \<Rightarrow> rat list \<Rightarrow> (rat \<times> rat list) option" where
  "take_earliest_after a js =
     (let q = filter (\<lambda>b. a < b) js
      in if q = [] then None else Some (Min (set q), remove1 (Min (set q)) js))"

fun fifo_scan :: "rat list \<Rightarrow> rat list \<Rightarrow> rat list" where
  "fifo_scan [] js = []"
| "fifo_scan (a # as) js =
     (case take_earliest_after a js of
        None \<Rightarrow> fifo_scan as js
      | Some (b, js') \<Rightarrow> (b - a) # fifo_scan as js')"

definition fifo_spec :: "rat list \<Rightarrow> rat list \<Rightarrow> rat list" where
  "fifo_spec ai aj = fifo_scan (sort ai) aj"

text \<open>
  The samples of a whole log in the words of the specification: the FIFO and the LIFO match
  of every trace where both lists are non-empty, in the order of the traces.
\<close>

definition fifo_spec_samples :: "(rat list \<times> rat list) list \<Rightarrow> rat list" where
  "fifo_spec_samples pairs = concat (map (\<lambda>(ai, aj). fifo_spec ai aj) (qualifying pairs))"

definition lifo_spec_samples :: "(rat list \<times> rat list) list \<Rightarrow> rat list" where
  "lifo_spec_samples pairs = concat (map (\<lambda>(ai, aj). lifo_spec ai aj) (qualifying pairs))"

text \<open>
  The grouped logs on which neither matrix function raises: every trace has a group for each
  of the \<open>n\<close> activities, and every event carries a numeric timestamp.
\<close>

definition well_grouped :: "nat \<Rightarrow> string \<Rightarrow> grouped_trace list \<Rightarrow> bool" where
  "well_grouped n timestamp_key tgl =
     list_all (\<lambda>tr. n \<le> length tr \<and>
       list_all (list_all (\<lambda>x. case x timestamp_key of Some (PyNum t) \<Rightarrow> True | _ \<Rightarrow> False)) tr)
       tgl"

section \<open>Preprocessing and the entry point\<close>

text \<open>Lines 12--19: the parameter keys and the default index attribute.\<close>

datatype Parameters = ACTIVITY_KEY | TIMESTAMP_KEY | CASE_ID_KEY | INDEX_KEY

type_synonym parameters = "Parameters \<rightharpoonup> string"

definition DEFAULT_INDEX_KEY :: string where
  "DEFAULT_INDEX_KEY = ''@@@index''"

text \<open>
  The default attribute names of \<^verbatim>\<open>xes_constants\<close>, a module that is not among the sources:
  the XES standard names, which \<^verbatim>\<open>performance_map.py\<close> (line 10) uses as its defaults too.
\<close>

definition DEFAULT_NAME_KEY :: string where
  "DEFAULT_NAME_KEY = ''concept:name''"

definition DEFAULT_TIMESTAMP_KEY :: string where
  "DEFAULT_TIMESTAMP_KEY = ''time:timestamp''"

definition DEFAULT_TRACEID_KEY :: string where
  "DEFAULT_TRACEID_KEY = ''concept:name''"

text \<open>
  Modelled from the spec: \<^verbatim>\<open>exec_utils.get_param_value\<close> is not among the sources. The
  specification (section 6) lists the recognised options, each naming an attribute, and says
  that unrecognised keys are ignored: the value stored under the option, and the default when
  the option is absent.
\<close>

definition get_param_value :: "Parameters \<Rightarrow> parameters \<Rightarrow> string \<Rightarrow> string" where
  "get_param_value p ps dflt = (case ps p of Some v \<Rightarrow> v | None \<Rightarrow> dflt)"

text \<open>
  A list comprehension whose element expression may raise: the first exception is the
  result.
\<close>

fun traverse :: "('a \<Rightarrow> error + 'b) \<Rightarrow> 'a list \<Rightarrow> error + 'b list" where
  "traverse f [] = Inr []"
| "traverse f (x # xs) =
     (case f x of
        Inl e \<Rightarrow> Inl e
      | Inr y \<Rightarrow> (case traverse f xs of Inl e \<Rightarrow> Inl e | Inr ys \<Rightarrow> Inr (y # ys)))"

text \<open>\<^verbatim>\<open>d[key]\<close> on a dictionary.\<close>

definition getitem :: "event \<Rightarrow> string \<Rightarrow> error + pyval" where
  "getitem d k = (case d k of None \<Rightarrow> Inl (KeyError k) | Some v \<Rightarrow> Inr v)"

text \<open>\<^verbatim>\<open>v.timestamp()\<close>: the seconds of a datetime; other values have no such method.\<close>

definition py_timestamp :: "pyval \<Rightarrow> error + pyval" where
  "py_timestamp v = (case v of PyDatetime t \<Rightarrow> Inr (PyNum t) | _ \<Rightarrow> Inl AttributeError)"

text \<open>
  Line 86: the dictionary display
  \<^verbatim>\<open>{activity_key: trace[i][activity_key], timestamp_key: trace[i][timestamp_key].timestamp(), index_key: i}\<close>
  for the event \<open>ev = trace[i]\<close>. The values are evaluated from left to right, and a later
  key overrides an equal earlier one.
\<close>

definition stream_event :: "string \<Rightarrow> string \<Rightarrow> string \<Rightarrow> event \<Rightarrow> nat \<Rightarrow> error + event" where
  "stream_event activity_key timestamp_key index_key ev i =
     (case getitem ev activity_key of
        Inl e \<Rightarrow> Inl e
      | Inr a \<Rightarrow>
          (case getitem ev timestamp_key of
             Inl e \<Rightarrow> Inl e
           | Inr d \<Rightarrow>
               (case py_timestamp d of
                  Inl e \<Rightarrow> Inl e
                | Inr t \<Rightarrow>
                    Inr (Map.empty(activity_key \<mapsto> a, timestamp_key \<mapsto> t,
                           index_key \<mapsto> PyNum (of_nat i))))))"

text \<open>
  Line 88: the sort key \<^verbatim>\<open>(x[timestamp_key], x[index_key])\<close>. Both components are numbers
  for every event that \<open>stream_event\<close> builds; tuples are compared lexicographically.
\<close>

definition stream_sort_key :: "string \<Rightarrow> string \<Rightarrow> event \<Rightarrow> error + (rat \<times> rat)" where
  "stream_sort_key timestamp_key index_key x =
     (case getitem x timestamp_key of
        Inl e \<Rightarrow> Inl e
      | Inr (PyNum t) \<Rightarrow>
          (case getitem x index_key of
             Inl e \<Rightarrow> Inl e
           | Inr (PyNum n) \<Rightarrow> Inr (t, n)
           | Inr _ \<Rightarrow> Inl TypeError)
      | Inr _ \<Rightarrow> Inl TypeError)"

text \<open>
  \<^verbatim>\<open>sorted(xs, key=f)\<close>: the keys are computed first, for all elements in order, and the
  sort is stable.
\<close>

definition py_sorted :: "('a \<Rightarrow> error + 'k::linorder) \<Rightarrow> 'a list \<Rightarrow> error + 'a list" where
  "py_sorted f xs =
     (case traverse f xs of
        Inl e \<Rightarrow> Inl e
      | Inr keys \<Rightarrow> Inr (map snd (sort_key fst (zip keys xs))))"

text \<open>Lines 85--88: the stream of one trace.\<close>

definition trace_stream :: "string \<Rightarrow> string \<Rightarrow> string \<Rightarrow> event list \<Rightarrow> error + event list" where
  "trace_stream activity_key timestamp_key index_key trace =
     (case traverse (\<lambda>i. stream_event activity_key timestamp_key index_key (trace ! i) i)
             [0..<length trace] of
        Inl e \<Rightarrow> Inl e
      | Inr stream \<Rightarrow> py_sorted (stream_sort_key timestamp_key index_key) stream)"

text \<open>
  The collaborators of \<open>preprocess_log\<close> that are not among the sources, as parameters:
  whether the log is a pandas data frame, the selection of columns of a data frame, and
  \<^verbatim>\<open>converter.apply\<close>, which turns a log into a list of traces.
\<close>

record 'log log_library =
  is_data_frame :: "'log \<Rightarrow> bool"
  select_columns :: "'log \<Rightarrow> string list \<Rightarrow> error + 'log"
  converter_apply :: "'log \<Rightarrow> parameters \<Rightarrow> error + event list list"

text \<open>
  Lines 68--89, with the argument \<^verbatim>\<open>log\<close> written \<open>log0\<close> and its two reassignments
  \<open>log1\<close> and \<open>log2\<close>: the value of the local variable \<open>traces_list\<close> when the loop of
  \<open>preprocess_log\<close> ends.
\<close>

definition preprocess_log_traces_list ::
  "'log log_library \<Rightarrow> 'log \<Rightarrow> parameters option \<Rightarrow> error + event list list" where
  "preprocess_log_traces_list lib log0 parameters =
     (let parameters = (case parameters of None \<Rightarrow> Map.empty | Some ps \<Rightarrow> ps);
          activity_key = get_param_value ACTIVITY_KEY parameters DEFAULT_NAME_KEY;
          timestamp_key = get_param_value TIMESTAMP_KEY parameters DEFAULT_TIMESTAMP_KEY;
          caseid_key = get_param_value CASE_ID_KEY parameters DEFAULT_TRACEID_KEY;
          index_key = get_param_value INDEX_KEY parameters DEFAULT_INDEX_KEY
      in case (if is_data_frame lib log0
               then select_columns lib log0 [activity_key, timestamp_key, caseid_key]
               else Inr log0) of
           Inl e \<Rightarrow> Inl e
         | Inr log1 \<Rightarrow>
             (case converter_apply lib log1 parameters of
                Inl e \<Rightarrow> Inl e
              | Inr log2 \<Rightarrow> traverse (trace_stream activity_key timestamp_key index_key) log2))"

text \<open>
  \<open>preprocess_log\<close> itself: the body has no \<^verbatim>\<open>return\<close> statement, so after the loop the
  function returns Python's \<^verbatim>\<open>None\<close>, here the value \<open>None\<close>.
\<close>

definition preprocess_log ::
  "'log log_library \<Rightarrow> 'log \<Rightarrow> parameters option \<Rightarrow> error + (event list list) option" where
  "preprocess_log lib log0 parameters =
     (case preprocess_log_traces_list lib log0 parameters of
        Inl e \<Rightarrow> Inl e
      | Inr traces_list \<Rightarrow> Inr None)"

text \<open>
  The objects that names of the module are bound to, by kind; only a list of traces can be
  iterated the way lines 50 and 53 do.
\<close>

datatype pyobj = Module | Class | Function | Str string | TracesList "event list list"

text \<open>
  The global names of the module: the names bound by the imports (lines 1--9), the class
  (line 12), the assignment (line 19) and the four function definitions. (The names that
  every module has, such as \<^verbatim>\<open>__name__\<close>, are left out; none of them is read.)
\<close>

definition module_globals :: "string \<rightharpoonup> pyobj" where
  "module_globals =
     [''exec_utils'' \<mapsto> Module, ''Enum'' \<mapsto> Class, ''constants'' \<mapsto> Module,
      ''xes_constants'' \<mapsto> Module, ''converter'' \<mapsto> Module, ''cm_util'' \<mapsto> Module,
      ''mean'' \<mapsto> Function, ''np'' \<mapsto> Module, ''Counter'' \<mapsto> Class, ''pd'' \<mapsto> Module,
      ''Parameters'' \<mapsto> Class, ''DEFAULT_INDEX_KEY'' \<mapsto> Str DEFAULT_INDEX_KEY,
      ''apply'' \<mapsto> Function, ''preprocess_log'' \<mapsto> Function,
      ''get_precede_succeed_matrix'' \<mapsto> Function, ''get_duration_matrix'' \<mapsto> Function]"

text \<open>
  The names of Python's builtins that the module uses; the builtins have no name
  \<^verbatim>\<open>traces_list\<close>.
\<close>

definition python_builtins :: "string \<rightharpoonup> pyobj" where
  "python_builtins =
     [''sorted'' \<mapsto> Function, ''list'' \<mapsto> Class, ''len'' \<mapsto> Function, ''range'' \<mapsto> Class,
      ''float'' \<mapsto> Class, ''min'' \<mapsto> Function, ''type'' \<mapsto> Class]"

text \<open>
  The names that the body of \<open>apply\<close> assigns (lines 41--64), which are its local
  variables besides the two arguments. Every other name that the body reads is global.
\<close>

definition apply_locals :: "string list" where
  "apply_locals =
     [''log'', ''parameters'', ''activity_key'', ''timestamp_key'', ''activities_counter'',
      ''activities'', ''trace_grouped_list'', ''trace'', ''gr'', ''act'', ''act_gr'',
      ''PS_matrix'', ''duration_matrix'', ''C_matrix'', ''dfg'', ''performance_dfg'']"

text \<open>
  Reading a name that has not been assigned in a function whose local names are
  \<open>locals\<close>: a local name raises UnboundLocalError; any other name is looked up in the
  module globals, then in the builtins, and raises NameError when neither binds it.
\<close>

definition load_name :: "string list \<Rightarrow> string \<Rightarrow> error + pyobj" where
  "load_name locals name =
     (if name \<in> set locals then Inl (UnboundLocalError name)
      else case module_globals name of
             Some v \<Rightarrow> Inr v
           | None \<Rightarrow>
               (case python_builtins name of Some v \<Rightarrow> Inr v | None \<Rightarrow> Inl (NameError name)))"

text \<open>An activity label read from an event: labels are strings.\<close>

definition activity_label :: "string \<Rightarrow> event \<Rightarrow> error + string" where
  "activity_label activity_key y =
     (case getitem y activity_key of
        Inl e \<Rightarrow> Inl e
      | Inr (PyStr a) \<Rightarrow> Inr a
      | Inr _ \<Rightarrow> Inl TypeError)"

text \<open>
  \<^verbatim>\<open>Counter(labels)\<close>: each distinct label with its number of occurrences, in the order of
  the first occurrences.
\<close>

definition Counter :: "string list \<Rightarrow> (string \<times> nat) list" where
  "Counter labels = map (\<lambda>a. (a, count_list labels a)) (rev (remdups (rev labels)))"

text \<open>
  Lines 52--58: the events of each trace grouped by activity. Every event carries the
  activity key here, or line 50 would have raised.
\<close>

definition group_traces :: "string \<Rightarrow> string list \<Rightarrow> event list list \<Rightarrow> grouped_trace list" where
  "group_traces activity_key activities traces_list =
     map (\<lambda>trace. map (\<lambda>act. filter (\<lambda>x. x activity_key = Some (PyStr act)) trace) activities)
       traces_list"

text \<open>
  The two functions of \<^verbatim>\<open>cm_util\<close>, a module that is not among the sources, as parameters.
  A graph maps pairs of activity labels to numbers.
\<close>

type_synonym dfg = "((string \<times> string) \<times> rat) list"

record cm_util =
  get_c_matrix :: "matrix \<Rightarrow> matrix \<Rightarrow> string list \<Rightarrow> (string \<times> nat) list \<Rightarrow> error + matrix"
  resolve_LP ::
    "matrix \<Rightarrow> matrix \<Rightarrow> string list \<Rightarrow> (string \<times> nat) list \<Rightarrow> error + (dfg \<times> dfg)"

text \<open>Lines 50--64, for the list of traces that the name \<open>traces_list\<close> would hold.\<close>

definition apply_from_traces ::
  "cm_util \<Rightarrow> string \<Rightarrow> string \<Rightarrow> event list list \<Rightarrow> error + (dfg \<times> dfg)" where
  "apply_from_traces cm activity_key timestamp_key traces_list =
     (case traverse (activity_label activity_key) (concat traces_list) of
        Inl e \<Rightarrow> Inl e
      | Inr labels \<Rightarrow>
          (let activities_counter = Counter labels;
               activities = sort (map fst activities_counter);
               trace_grouped_list = group_traces activity_key activities traces_list
           in case get_precede_succeed_matrix activities trace_grouped_list timestamp_key of
                Inl e \<Rightarrow> Inl e
              | Inr PS_matrix \<Rightarrow>
                  (case get_duration_matrix activities trace_grouped_list timestamp_key of
                     Inl e \<Rightarrow> Inl e
                   | Inr duration_matrix \<Rightarrow>
                       (case get_c_matrix cm PS_matrix duration_matrix activities
                               activities_counter of
                          Inl e \<Rightarrow> Inl e
                        | Inr C_matrix \<Rightarrow>
                            resolve_LP cm C_matrix duration_matrix activities
                              activities_counter))))"

text \<open>
  Lines 41--64: the function \<^verbatim>\<open>apply\<close> of the module, named \<open>apply_trace_based\<close> here
  (\<^verbatim>\<open>apply\<close> is a proof command). The two parameter reads come first; line 50 then reads the name
  \<^verbatim>\<open>traces_list\<close>, which is neither an argument nor assigned anywhere in the body.
\<close>

definition apply_trace_based :: "cm_util \<Rightarrow> 'log \<Rightarrow> parameters option \<Rightarrow> error + (dfg \<times> dfg)" where
  "apply_trace_based cm log0 parameters =
     (let parameters = (case parameters of None \<Rightarrow> Map.empty | Some ps \<Rightarrow> ps);
          activity_key = get_param_value ACTIVITY_KEY parameters DEFAULT_NAME_KEY;
          timestamp_key = get_param_value TIMESTAMP_KEY parameters DEFAULT_TIMESTAMP_KEY
      in case load_name apply_locals ''traces_list'' of
           Inl e \<Rightarrow> Inl e
         | Inr (TracesList traces_list) \<Rightarrow>
             apply_from_traces cm activity_key timestamp_key traces_list
         | Inr _ \<Rightarrow> Inl TypeError)"

text \<open>
  A library for logs that already are lists of traces: such a log is no data frame, and the
  conversion hands it back unchanged.
\<close>

definition event_log_library :: "(event list list) log_library" where
  "event_log_library =
     \<lparr>is_data_frame = (\<lambda>l. False), select_columns = (\<lambda>l cols. Inr l),
      converter_apply = (\<lambda>l ps. Inr l)\<rparr>"

section \<open>Matrix cells and the loops of the precede/succeed matrix\<close>

lemma square_np_zeros: "square n (np_zeros n n)"
  by (simp add: square_def np_zeros_def list_all_iff)

lemma mat_get_np_zeros: "i < n \<Longrightarrow> j < n \<Longrightarrow> mat_get (np_zeros n n) i j = 0"
  by (simp add: mat_get_def np_zeros_def)

lemma square_row: "square n m \<Longrightarrow> i < n \<Longrightarrow> length (m ! i) = n"
  by (simp add: square_def list_all_length)

lemma square_mat_set: "square n m \<Longrightarrow> square n (mat_set m i j v)"
  by (cases "i < length m") (auto simp: square_def mat_set_def list_all_length nth_list_update)

lemma mat_get_mat_set:
  "square n m \<Longrightarrow> i < n \<Longrightarrow> j < n \<Longrightarrow>
   mat_get (mat_set m i j v) a b = (if a = i \<and> b = j then v else mat_get m a b)"
  by (auto simp: mat_get_def mat_set_def square_def list_all_length nth_list_update)

lemma square_ps_write: "square n ret \<Longrightarrow> square n (ps_write ret i j ct)"
  by (simp add: ps_write_def Let_def square_mat_set)

lemma mat_get_ps_write:
  assumes "square n ret" "i < n" "j < n" "i \<noteq> j"
  shows "mat_get (ps_write ret i j ct) a b =
     (if a = i \<and> b = j then (if snd ct > 0 then ps_ratio ct else mat_get ret i j)
      else if a = j \<and> b = i then 1 - (if snd ct > 0 then ps_ratio ct else mat_get ret i j)
      else mat_get ret a b)"
  using assms
  by (auto simp: ps_write_def Let_def mat_get_mat_set[of n] square_mat_set ps_ratio_def)

lemma ps_j_loop_square:
  "ps_j_loop i key tgl js ret = Inr ret' \<Longrightarrow> square n ret \<Longrightarrow> square n ret'"
  by (induction js arbitrary: ret) (auto split: sum.splits intro: square_ps_write)

lemma ps_j_loop_frame:
  assumes "ps_j_loop i key tgl js ret = Inr ret'" "square n ret" "i < n"
    and "\<forall>j\<in>set js. i < j \<and> j < n"
    and "\<not> (a = i \<and> b \<in> set js)" "\<not> (b = i \<and> a \<in> set js)"
  shows "mat_get ret' a b = mat_get ret a b"
  using assms
proof (induction js arbitrary: ret)
  case Nil
  then show ?case by simp
next
  case (Cons j js)
  from Cons.prems(1) obtain ct where ct: "ps_traces i j key tgl (0, 0) = Inr ct"
    and rest: "ps_j_loop i key tgl js (ps_write ret i j ct) = Inr ret'"
    by (auto split: sum.splits)
  from Cons.prems have j: "i < j" "j < n" by auto
  have "mat_get ret' a b = mat_get (ps_write ret i j ct) a b"
    using Cons.IH[OF rest square_ps_write[OF Cons.prems(2)] Cons.prems(3)] Cons.prems by auto
  also have "\<dots> = mat_get ret a b"
    using Cons.prems(5,6) j by (auto simp: mat_get_ps_write[OF Cons.prems(2,3)])
  finally show ?case .
qed

lemma ps_j_loop_cells:
  assumes "ps_j_loop i key tgl js ret = Inr ret'" "square n ret" "i < n"
    and "\<forall>j\<in>set js. i < j \<and> j < n" "distinct js"
    and "j \<in> set js" "mat_get ret i j = 0"
  shows "\<exists>ct. ps_traces i j key tgl (0, 0) = Inr ct \<and>
           mat_get ret' i j = ps_ratio ct \<and> mat_get ret' j i = 1 - ps_ratio ct"
  using assms
proof (induction js arbitrary: ret)
  case Nil
  then show ?case by simp
next
  case (Cons j' js)
  from Cons.prems(1) obtain ct where ct: "ps_traces i j' key tgl (0, 0) = Inr ct"
    and rest: "ps_j_loop i key tgl js (ps_write ret i j' ct) = Inr ret'"
    by (auto split: sum.splits)
  from Cons.prems have j': "i < j'" "j' < n" and j: "i < j" "j < n" by auto
  note sq = square_ps_write[OF Cons.prems(2), of i j' ct]
  show ?case
  proof (cases "j = j'")
    case True
    with Cons.prems have notin: "j \<notin> set js" by simp
    have "mat_get ret' i j = mat_get (ps_write ret i j' ct) i j"
      using ps_j_loop_frame[OF rest sq Cons.prems(3), of i j] Cons.prems(4) notin j by auto
    moreover have "mat_get ret' j i = mat_get (ps_write ret i j' ct) j i"
      using ps_j_loop_frame[OF rest sq Cons.prems(3), of j i] Cons.prems(4) notin j by auto
    ultimately show ?thesis
      using ct True Cons.prems(7) j
      by (simp add: mat_get_ps_write[OF Cons.prems(2,3)] ps_ratio_def)
  next
    case False
    then have "mat_get (ps_write ret i j' ct) i j = 0"
      using Cons.prems(7) j j' by (simp add: mat_get_ps_write[OF Cons.prems(2,3)])
    then show ?thesis
      using Cons.IH[OF rest sq Cons.prems(3)] Cons.prems False by auto
  qed
qed

lemma ps_i_loop_square:
  "ps_i_loop n key tgl is ret = Inr ret' \<Longrightarrow> square n ret \<Longrightarrow> square n ret'"
  by (induction "is" arbitrary: ret) (auto split: sum.splits dest: ps_j_loop_square)

lemma ps_i_loop_frame:
  assumes "ps_i_loop n key tgl is ret = Inr ret'" "square n ret" "\<forall>i\<in>set is. i < n"
    and "a = b \<or> min a b \<notin> set is"
  shows "mat_get ret' a b = mat_get ret a b"
  using assms
proof (induction "is" arbitrary: ret)
  case Nil
  then show ?case by simp
next
  case (Cons i "is")
  from Cons.prems(1) obtain ret1 where jl: "ps_j_loop i key tgl [i + 1..<n] ret = Inr ret1"
    and rest: "ps_i_loop n key tgl is ret1 = Inr ret'"
    by (auto split: sum.splits)
  have sq: "square n ret1" using ps_j_loop_square[OF jl Cons.prems(2)] .
  have "mat_get ret' a b = mat_get ret1 a b"
    using Cons.IH[OF rest sq] Cons.prems by auto
  also have "\<dots> = mat_get ret a b"
    using ps_j_loop_frame[OF jl Cons.prems(2), of a b] Cons.prems(3,4) by (auto simp: min_def split: if_splits)
  finally show ?case .
qed

lemma ps_i_loop_cells:
  assumes "ps_i_loop n key tgl is ret = Inr ret'" "square n ret" "\<forall>i\<in>set is. i < n"
    and "distinct is" "i \<in> set is" "i < j" "j < n" "mat_get ret i j = 0"
  shows "\<exists>ct. ps_traces i j key tgl (0, 0) = Inr ct \<and>
           mat_get ret' i j = ps_ratio ct \<and> mat_get ret' j i = 1 - ps_ratio ct"
  using assms
proof (induction "is" arbitrary: ret)
  case Nil
  then show ?case by simp
next
  case (Cons i' "is")
  from Cons.prems(1) obtain ret1 where jl: "ps_j_loop i' key tgl [i' + 1..<n] ret = Inr ret1"
    and rest: "ps_i_loop n key tgl is ret1 = Inr ret'"
    by (auto split: sum.splits)
  have sq: "square n ret1" using ps_j_loop_square[OF jl Cons.prems(2)] .
  have i': "i' < n" using Cons.prems(3) by simp
  show ?case
  proof (cases "i = i'")
    case True
    with Cons.prems have notin: "i \<notin> set is" by simp
    have "\<exists>ct. ps_traces i j key tgl (0, 0) = Inr ct \<and>
           mat_get ret1 i j = ps_ratio ct \<and> mat_get ret1 j i = 1 - ps_ratio ct"
      using ps_j_loop_cells[OF jl Cons.prems(2) i', of j] Cons.prems(6,7,8) True by auto
    moreover have "mat_get ret' i j = mat_get ret1 i j"
      using ps_i_loop_frame[OF rest sq, of i j] Cons.prems(3,6) notin by (auto simp: min_def)
    moreover have "mat_get ret' j i = mat_get ret1 j i"
      using ps_i_loop_frame[OF rest sq, of j i] Cons.prems(3,6) notin by (auto simp: min_def)
    ultimately show ?thesis by simp
  next
    case False
    have "mat_get ret1 i j = mat_get ret i j"
      using ps_j_loop_frame[OF jl Cons.prems(2) i', of i j] False Cons.prems(6) by auto
    then show ?thesis
      using Cons.IH[OF rest sq] Cons.prems False by auto
  qed
qed

lemma psm_square:
  "get_precede_succeed_matrix activities tgl key = Inr m \<Longrightarrow> square (length activities) m"
  by (auto simp: get_precede_succeed_matrix_def Let_def intro: ps_i_loop_square square_np_zeros)

lemma psm_diagonal:
  assumes "get_precede_succeed_matrix activities tgl key = Inr m" "i < length activities"
  shows "mat_get m i i = 0"
  using ps_i_loop_frame[of "length activities" key tgl "[0..<length activities]" _ m i i] assms
  by (simp add: get_precede_succeed_matrix_def Let_def square_np_zeros mat_get_np_zeros)

lemma psm_cells:
  assumes "get_precede_succeed_matrix activities tgl key = Inr m" "i < j" "j < length activities"
  shows "\<exists>ct. ps_traces i j key tgl (0, 0) = Inr ct \<and>
           mat_get m i j = ps_ratio ct \<and> mat_get m j i = 1 - ps_ratio ct"
  using ps_i_loop_cells[of "length activities" key tgl "[0..<length activities]" _ m i j] assms
  by (simp add: get_precede_succeed_matrix_def Let_def square_np_zeros mat_get_np_zeros)

lemma ps_traces_none_qualifying:
  assumes "\<forall>tr\<in>set tgl. \<forall>ai aj. occurrence_lists i j key tr = Inr (ai, aj) \<longrightarrow> ai = [] \<or> aj = []"
    and "ps_traces i j key tgl ct = Inr ct'"
  shows "ct' = ct"
  using assms
  by (induction tgl arbitrary: ct) (auto simp: ps_trace_step_def split: sum.splits)

lemma naive_count_later: "naive_count ai aj = sum_list (map (\<lambda>a. later_count a aj) ai)"
  by (induction ai) (simp_all add: naive_count_def later_count_def filter_map o_def)

lemma ps_inner_done: "\<not> z < length aj \<Longrightarrow> ps_inner ai aj k z = z"
  by (subst ps_inner.simps) simp

lemma ps_inner_hit: "z < length aj \<Longrightarrow> ai ! k < aj ! z \<Longrightarrow> ps_inner ai aj k z = z"
  by (subst ps_inner.simps) simp

lemma ps_inner_miss:
  "z < length aj \<Longrightarrow> \<not> ai ! k < aj ! z \<Longrightarrow> ps_inner ai aj k z = ps_inner ai aj k (z + 1)"
  by (subst ps_inner.simps) simp

lemma ps_inner_range: "z \<le> length aj \<Longrightarrow> z \<le> ps_inner ai aj k z \<and> ps_inner ai aj k z \<le> length aj"
proof (induction ai aj k z rule: ps_inner.induct)
  case (1 ai aj k z)
  consider "\<not> z < length aj" | "z < length aj" "ai ! k < aj ! z"
    | "z < length aj" "\<not> ai ! k < aj ! z" by blast
  then show ?case
  proof cases
    case 1
    then show ?thesis using "1.prems" by (simp add: ps_inner_done)
  next
    case 2
    then show ?thesis by (simp add: ps_inner_hit)
  next
    case 3
    then show ?thesis using "1.IH"[OF 3] by (simp add: ps_inner_miss)
  qed
qed

lemma ps_inner_skipped:
  "z \<le> z' \<Longrightarrow> z' < ps_inner ai aj k z \<Longrightarrow> \<not> ai ! k < aj ! z'"
proof (induction ai aj k z rule: ps_inner.induct)
  case (1 ai aj k z)
  consider "\<not> z < length aj" | "z < length aj" "ai ! k < aj ! z"
    | "z < length aj" "\<not> ai ! k < aj ! z" by blast
  then show ?case
  proof cases
    case 1
    then show ?thesis using "1.prems" by (simp add: ps_inner_done)
  next
    case 2
    then show ?thesis using "1.prems" by (simp add: ps_inner_hit)
  next
    case 3
    show ?thesis
    proof (cases "z' = z")
      case True
      then show ?thesis using 3 by simp
    next
      case False
      then show ?thesis using "1.IH"[OF 3] "1.prems" 3 by (simp add: ps_inner_miss)
    qed
  qed
qed

lemma ps_inner_stop:
  "ps_inner ai aj k z < length aj \<Longrightarrow> ai ! k < aj ! (ps_inner ai aj k z)"
proof (induction ai aj k z rule: ps_inner.induct)
  case (1 ai aj k z)
  consider "\<not> z < length aj" | "z < length aj" "ai ! k < aj ! z"
    | "z < length aj" "\<not> ai ! k < aj ! z" by blast
  then show ?case
  proof cases
    case 1
    then show ?thesis using "1.prems" by (simp add: ps_inner_done)
  next
    case 2
    then show ?thesis by (simp add: ps_inner_hit)
  next
    case 3
    then show ?thesis using "1.IH"[OF 3] "1.prems" by (simp add: ps_inner_miss)
  qed
qed

lemma ps_inner_later_count:
  assumes "sorted aj" "z \<le> length aj" "\<forall>z'<z. \<not> a < aj ! z'" "a = ai ! k"
  shows "length aj - ps_inner ai aj k z = later_count a aj"
proof -
  let ?s = "ps_inner ai aj k z"
  have r: "z \<le> ?s" "?s \<le> length aj" using ps_inner_range[OF assms(2)] by auto
  have before: "\<not> a < b" if "b \<in> set (take ?s aj)" for b
  proof -
    from that obtain p where p: "p < ?s" "p < length aj" "b = aj ! p"
      by (auto simp: in_set_conv_nth)
    show ?thesis
    proof (cases "p < z")
      case True
      then show ?thesis using assms(3) p by simp
    next
      case False
      then show ?thesis using ps_inner_skipped[of z p ai aj k] p assms(4) by simp
    qed
  qed
  have after: "a < b" if "b \<in> set (drop ?s aj)" for b
  proof -
    from that obtain p where p: "?s \<le> p" "p < length aj" "b = aj ! p"
      by (auto simp: in_set_conv_nth) (metis add.commute le_add1 less_diff_conv)
    then have "?s < length aj" by simp
    then have "a < aj ! ?s" using ps_inner_stop[of ai aj k z] assms(4) by simp
    also have "aj ! ?s \<le> aj ! p" using assms(1) p by (simp add: sorted_iff_nth_mono)
    finally show ?thesis using p by simp
  qed
  have "filter (\<lambda>b. a < b) aj = filter (\<lambda>b. a < b) (take ?s aj) @ filter (\<lambda>b. a < b) (drop ?s aj)"
    by (metis append_take_drop_id filter_append)
  also have "\<dots> = drop ?s aj"
    using before after by (simp add: filter_empty_conv filter_id_conv)
  finally show ?thesis by (simp add: later_count_def)
qed

lemma ps_outer_naive:
  assumes "sorted ai" "sorted aj" "z \<le> length aj" "\<forall>z'<z. k < length ai \<longrightarrow> \<not> ai ! k < aj ! z'"
  shows "ps_outer ai aj k z count = count + sum_list (map (\<lambda>a. later_count a aj) (drop k ai))"
  using assms
proof (induction ai aj k z count rule: ps_outer.induct)
  case (1 ai aj k z count)
  show ?case
  proof (cases "k < length ai")
    case True
    let ?s = "ps_inner ai aj k z"
    have r: "z \<le> ?s" "?s \<le> length aj" using ps_inner_range[OF "1.prems"(3)] by auto
    have cnt: "length aj - ?s = later_count (ai ! k) aj"
      using ps_inner_later_count[OF "1.prems"(2,3), of "ai ! k" ai k] "1.prems"(4) True by simp
    have inv: "\<forall>z'<?s. k + 1 < length ai \<longrightarrow> \<not> ai ! (k + 1) < aj ! z'"
    proof (intro allI impI)
      fix z' assume z': "z' < ?s" and k1: "k + 1 < length ai"
      have "\<not> ai ! k < aj ! z'"
      proof (cases "z' < z")
        case True
        then show ?thesis using "1.prems"(4) \<open>k < length ai\<close> by simp
      next
        case False
        then show ?thesis using ps_inner_skipped[of z z' ai aj k] z' by simp
      qed
      moreover have "ai ! k \<le> ai ! (k + 1)"
        using "1.prems"(1) k1 by (simp add: sorted_iff_nth_mono)
      ultimately show "\<not> ai ! (k + 1) < aj ! z'" by simp
    qed
    have "ps_outer ai aj k z count = ps_outer ai aj (k + 1) ?s (count + (length aj - ?s))"
      using True by (subst ps_outer.simps) (simp only: Let_def if_True)
    also have "\<dots> = count + (length aj - ?s) + sum_list (map (\<lambda>a. later_count a aj) (drop (k + 1) ai))"
      using "1.IH"[OF True refl "1.prems"(1,2) r(2) inv] .
    also have "\<dots> = count + sum_list (map (\<lambda>a. later_count a aj) (drop k ai))"
      using True cnt by (simp add: Cons_nth_drop_Suc[symmetric])
    finally show ?thesis .
  next
    case False
    then show ?thesis by (subst ps_outer.simps) simp
  qed
qed

lemma ps_outer_sorted_naive:
  "sorted ai \<Longrightarrow> sorted aj \<Longrightarrow> ps_outer ai aj 0 0 count = count + naive_count ai aj"
  using ps_outer_naive[of ai aj 0 0 count] by (simp add: naive_count_later)

lemma ps_traces_fold:
  assumes "all_occurrence_lists i j key tgl = Inr pairs"
  shows "ps_traces i j key tgl ct = Inr (fold (\<lambda>(ai, aj). ps_trace_step ai aj) pairs ct)"
  using assms
  by (induction tgl arbitrary: ct pairs) (auto split: sum.splits)

lemma ps_traces_all_lists:
  "ps_traces i j key tgl ct = Inr ct' \<Longrightarrow> \<exists>pairs. all_occurrence_lists i j key tgl = Inr pairs"
proof (induction tgl arbitrary: ct)
  case Nil
  then show ?case by simp
next
  case (Cons tr tgl)
  from Cons.prems obtain ai aj where p: "occurrence_lists i j key tr = Inr (ai, aj)"
    and rest: "ps_traces i j key tgl (ps_trace_step ai aj ct) = Inr ct'"
    by (auto split: sum.splits)
  from Cons.IH[OF rest] p show ?case by auto
qed

lemma fold_ps_trace_step_sorted:
  assumes "\<forall>(ai, aj)\<in>set pairs. sorted ai \<and> sorted aj"
  shows "fold (\<lambda>(ai, aj). ps_trace_step ai aj) pairs ct =
           (fst ct + naive_count_total pairs, snd ct + pair_total pairs)"
  using assms
proof (induction pairs arbitrary: ct)
  case Nil
  then show ?case by (simp add: naive_count_total_def pair_total_def qualifying_def)
next
  case (Cons p pairs)
  obtain ai aj where p: "p = (ai, aj)" by (cases p)
  have s: "sorted ai" "sorted aj" using Cons.prems p by auto
  have rest: "\<forall>(ai, aj)\<in>set pairs. sorted ai \<and> sorted aj" using Cons.prems by simp
  have step: "ps_trace_step ai aj ct =
      (if ai \<noteq> [] \<and> aj \<noteq> [] then (fst ct + naive_count ai aj, snd ct + length ai * length aj)
       else ct)"
    by (simp add: ps_trace_step_def ps_outer_sorted_naive[OF s])
  have "fold (\<lambda>(ai, aj). ps_trace_step ai aj) (p # pairs) ct =
      fold (\<lambda>(ai, aj). ps_trace_step ai aj) pairs (ps_trace_step ai aj ct)"
    by (simp add: p)
  also have "\<dots> = (fst (ps_trace_step ai aj ct) + naive_count_total pairs,
      snd (ps_trace_step ai aj ct) + pair_total pairs)"
    by (rule Cons.IH[OF rest])
  also have "\<dots> = (fst ct + naive_count_total (p # pairs), snd ct + pair_total (p # pairs))"
    by (simp add: step p naive_count_total_def pair_total_def qualifying_def)
  finally show ?case .
qed

lemma ps_outer_le: "ps_outer ai aj k z count \<le> count + (length ai - k) * length aj"
proof (induction ai aj k z count rule: ps_outer.induct)
  case (1 ai aj k z count)
  show ?case
  proof (cases "k < length ai")
    case True
    let ?s = "ps_inner ai aj k z"
    have "ps_outer ai aj k z count = ps_outer ai aj (k + 1) ?s (count + (length aj - ?s))"
      using True by (subst ps_outer.simps) (simp only: Let_def if_True)
    also have "\<dots> \<le> count + (length aj - ?s) + (length ai - (k + 1)) * length aj"
      using "1.IH"[OF True refl] .
    also have "\<dots> \<le> count + length aj + (length ai - (k + 1)) * length aj" by simp
    also have "\<dots> = count + (length ai - k) * length aj"
      using True by (simp add: Suc_diff_Suc[symmetric] del: Suc_diff_Suc)
    finally show ?thesis .
  next
    case False
    then show ?thesis by (subst ps_outer.simps) simp
  qed
qed

lemma ps_trace_step_le: "fst ct \<le> snd ct \<Longrightarrow> fst (ps_trace_step ai aj ct) \<le> snd (ps_trace_step ai aj ct)"
  using ps_outer_le[of ai aj 0 0 "fst ct"] by (simp add: ps_trace_step_def)

lemma ps_traces_le:
  "ps_traces i j key tgl ct = Inr ct' \<Longrightarrow> fst ct \<le> snd ct \<Longrightarrow> fst ct' \<le> snd ct'"
proof (induction tgl arbitrary: ct)
  case Nil
  then show ?case by simp
next
  case (Cons tr tgl)
  from Cons.prems(1) obtain ai aj where
    rest: "ps_traces i j key tgl (ps_trace_step ai aj ct) = Inr ct'"
    by (auto split: sum.splits)
  show ?case by (rule Cons.IH[OF rest ps_trace_step_le[OF Cons.prems(2)]])
qed

lemma ps_traces_append:
  "ps_traces i j key (xs @ ys) ct =
     (case ps_traces i j key xs ct of Inl e \<Rightarrow> Inl e | Inr ct' \<Rightarrow> ps_traces i j key ys ct')"
  by (induction xs arbitrary: ct) (auto split: sum.splits)

lemma ps_outer_all_earlier:
  assumes "\<forall>a\<in>set ai. \<forall>b\<in>set aj. a < b"
  shows "ps_outer ai aj k 0 count = count + (length ai - k) * length aj"
  using assms
proof (induction "length ai - k" arbitrary: k count)
  case 0
  then show ?case by (subst ps_outer.simps) simp
next
  case (Suc d)
  then have k: "k < length ai" by simp
  have z: "ps_inner ai aj k 0 = 0"
  proof (cases "aj = []")
    case True
    then show ?thesis by (simp add: ps_inner_done)
  next
    case False
    then have "ai ! k < aj ! 0" using Suc.prems k by (simp add: hd_conv_nth[symmetric])
    then show ?thesis using False by (simp add: ps_inner_hit)
  qed
  have "ps_outer ai aj k 0 count = ps_outer ai aj (k + 1) 0 (count + length aj)"
    using k z by (subst ps_outer.simps) (simp add: Let_def)
  also have "\<dots> = count + length aj + (length ai - (k + 1)) * length aj"
    using Suc.hyps(1)[of "k + 1"] Suc.hyps(2) Suc.prems by simp
  also have "\<dots> = count + (length ai - k) * length aj"
    using k by (simp add: Suc_diff_Suc[symmetric] del: Suc_diff_Suc)
  finally show ?case .
qed

lemma ps_inner_none_later:
  assumes "\<forall>b\<in>set aj. \<not> ai ! k < b" "z \<le> length aj"
  shows "ps_inner ai aj k z = length aj"
  using assms
proof (induction ai aj k z rule: ps_inner.induct)
  case (1 ai aj k z)
  show ?case
  proof (cases "z < length aj")
    case True
    then have miss: "\<not> ai ! k < aj ! z" using "1.prems"(1) by simp
    show ?thesis using "1.IH"[OF True miss "1.prems"(1)] True by (simp add: ps_inner_miss[OF True miss])
  next
    case False
    then show ?thesis using "1.prems"(2) by (simp add: ps_inner_done)
  qed
qed

lemma ps_outer_none_earlier:
  assumes "\<forall>a\<in>set ai. \<forall>b\<in>set aj. \<not> a < b" "z \<le> length aj"
  shows "ps_outer ai aj k z count = count"
  using assms
proof (induction ai aj k z count rule: ps_outer.induct)
  case (1 ai aj k z count)
  show ?case
  proof (cases "k < length ai")
    case True
    have s: "ps_inner ai aj k z = length aj"
      using ps_inner_none_later[of aj ai k z] "1.prems" True by simp
    have "ps_outer ai aj k z count = ps_outer ai aj (k + 1) (length aj) count"
      using True s by (subst ps_outer.simps) (simp add: Let_def)
    then show ?thesis using "1.IH"[OF True refl "1.prems"(1)] s by simp
  next
    case False
    then show ?thesis by (subst ps_outer.simps) simp
  qed
qed

lemma occurrence_lists_swap:
  "occurrence_lists i j key tr = Inr (ai, aj) \<Longrightarrow> occurrence_lists j i key tr = Inr (aj, ai)"
  by (auto simp: occurrence_lists_def split: sum.splits)

lemma ps_ratio_grow:
  assumes "fst ct \<le> snd ct" "p > 0"
  shows "ps_ratio ct \<le> ps_ratio (fst ct + p, snd ct + p)"
proof (cases "snd ct = 0")
  case True
  then show ?thesis using assms by (simp add: ps_ratio_def)
next
  case False
  have "fst ct * (snd ct + p) \<le> (fst ct + p) * snd ct"
    using assms(1) by (simp add: algebra_simps)
  then have "(of_nat (fst ct) :: rat) * of_nat (snd ct + p) \<le> of_nat (fst ct + p) * of_nat (snd ct)"
    by (metis of_nat_mult of_nat_le_iff)
  then show ?thesis using False assms(2)
    by (simp add: ps_ratio_def field_simps)
qed

lemma ps_ratio_dilute:
  "ps_ratio (fst ct, snd ct + p) \<le> ps_ratio ct \<or> snd ct = 0"
  by (cases "snd ct = 0") (auto simp: ps_ratio_def field_simps)

section \<open>Claims about the precede/succeed matrix\<close>

text \<open>
  C7. For a pair of activity indices \<open>i < j\<close> such that no trace has both occurrence lists
  non-empty, so that \<open>total\<close> stays 0, \<open>get_precede_succeed_matrix\<close> leaves
  \<open>PS[i][j] = 0\<close> and sets \<open>PS[j][i] = 1\<close>.
\<close>

theorem ps_default_without_common_trace:
  assumes "get_precede_succeed_matrix activities tgl key = Inr m"
    and "i < j" "j < length activities"
    and "\<forall>tr\<in>set tgl. \<forall>ai aj. occurrence_lists i j key tr = Inr (ai, aj) \<longrightarrow> ai = [] \<or> aj = []"
  shows "mat_get m i j = 0 \<and> mat_get m j i = 1"
proof -
  from psm_cells[OF assms(1-3)] obtain ct where ct: "ps_traces i j key tgl (0, 0) = Inr ct"
    and cells: "mat_get m i j = ps_ratio ct" "mat_get m j i = 1 - ps_ratio ct"
    by blast
  have "ct = (0, 0)" using ps_traces_none_qualifying[OF assms(4) ct] .
  then show ?thesis using cells by (simp add: ps_ratio_def)
qed

text \<open>
  The theorem at a log of two traces, the first with one event of activity 0 only and the
  second with one event of activity 1 only.
\<close>

theorem ps_default_without_common_trace_witness:
  "get_precede_succeed_matrix [''A'', ''B'']
     [[[[''time:timestamp'' \<mapsto> PyNum 0]], []], [[], [[''time:timestamp'' \<mapsto> PyNum 1]]]]
     ''time:timestamp'' = Inr [[0, 0], [1, 0]]
   \<and> mat_get [[0, 0], [1, 0]] 0 1 = 0 \<and> mat_get [[0, 0], [1, 0]] 1 0 = 1"
proof -
  let ?tgl = "[[[[''time:timestamp'' \<mapsto> PyNum 0]], []],
               [[], [[''time:timestamp'' \<mapsto> PyNum 1]]]] :: grouped_trace list"
  have run: "get_precede_succeed_matrix [''A'', ''B''] ?tgl ''time:timestamp''
               = Inr [[0, 0], [1, 0]]"
    by code_simp
  have never: "\<forall>tr\<in>set ?tgl. \<forall>ai aj.
      occurrence_lists 0 1 ''time:timestamp'' tr = Inr (ai, aj) \<longrightarrow> ai = [] \<or> aj = []"
    by (auto simp: occurrence_lists_def py_index_def)
  have "mat_get [[0, 0], [1, 0]] 0 1 = 0 \<and> mat_get [[0, 0], [1, 0]] 1 0 = 1"
    using ps_default_without_common_trace[OF run _ _ never] by simp
  with run show ?thesis by blast
qed

text \<open>
  C8. Whenever \<open>get_precede_succeed_matrix\<close> returns a matrix, its diagonal is 0 and
  \<open>PS[i][j] + PS[j][i] = 1\<close> for all \<open>i \<noteq> j\<close> (exactly, in the arithmetic without
  rounding of this model).
\<close>

theorem ps_sum_one_and_diagonal:
  assumes "get_precede_succeed_matrix activities tgl key = Inr m"
    and "i < length activities" "j < length activities"
  shows "mat_get m i i = 0 \<and> (i \<noteq> j \<longrightarrow> mat_get m i j + mat_get m j i = 1)"
proof -
  have "mat_get m i j + mat_get m j i = 1" if "a < b" "b < length activities"
     "(i = a \<and> j = b) \<or> (i = b \<and> j = a)" for a b
    using psm_cells[OF assms(1) that(1,2)] that(3) by auto
  then have "i \<noteq> j \<Longrightarrow> mat_get m i j + mat_get m j i = 1"
    using assms(2,3) by (cases "i < j") (auto simp: not_less le_less)
  then show ?thesis using psm_diagonal[OF assms(1,2)] by blast
qed

text \<open>
  The theorem at one trace with activity 0 at times 0 and 2 and activity 1 at times 1 and 3:
  three of the four occurrence pairs have the first activity earlier.
\<close>

theorem ps_sum_one_and_diagonal_witness:
  "get_precede_succeed_matrix [''A'', ''B'']
     [[[[''time:timestamp'' \<mapsto> PyNum 0], [''time:timestamp'' \<mapsto> PyNum 2]],
       [[''time:timestamp'' \<mapsto> PyNum 1], [''time:timestamp'' \<mapsto> PyNum 3]]]]
     ''time:timestamp'' = Inr [[0, 3 / 4], [1 / 4, 0]]
   \<and> mat_get [[0, 3 / 4], [1 / 4, 0]] 0 0 = 0
   \<and> mat_get [[0, 3 / 4], [1 / 4, 0]] 0 1 + mat_get [[0, 3 / 4], [1 / 4, 0]] 1 0 = 1"
proof -
  have run: "get_precede_succeed_matrix [''A'', ''B'']
     [[[[''time:timestamp'' \<mapsto> PyNum 0], [''time:timestamp'' \<mapsto> PyNum 2]],
       [[''time:timestamp'' \<mapsto> PyNum 1], [''time:timestamp'' \<mapsto> PyNum 3]]]]
     ''time:timestamp'' = Inr [[0, 3 / 4], [1 / 4, 0]]"
    by code_simp
  have "mat_get [[0, 3 / 4], [1 / 4, 0]] 0 0 = 0
   \<and> mat_get [[0, 3 / 4], [1 / 4, 0]] 0 1 + mat_get [[0, 3 / 4], [1 / 4, 0]] 1 0 = 1"
    using ps_sum_one_and_diagonal[OF run, of 0 1] by simp
  with run show ?thesis by blast
qed

text \<open>
  C4. For a pair of activity indices \<open>i < j\<close> whose occurrence-timestamp lists are sorted
  non-decreasingly in every trace, the two-pointer merge computes the naive quantity:
  \<open>PS[i][j]\<close> is the number of occurrence pairs with the \<open>i\<close>-timestamp strictly earlier
  (so pairs with equal timestamps are not counted), over the traces where both lists are
  non-empty, divided by the sum of \<open>|ai| * |aj|\<close> over those traces, whenever that sum is
  positive.
\<close>

theorem ps_two_pointer_is_naive_ratio:
  assumes "get_precede_succeed_matrix activities tgl key = Inr m"
    and "i < j" "j < length activities"
    and "all_occurrence_lists i j key tgl = Inr pairs"
    and "\<forall>(ai, aj)\<in>set pairs. sorted ai \<and> sorted aj"
    and "pair_total pairs > 0"
  shows "mat_get m i j = of_nat (naive_count_total pairs) / of_nat (pair_total pairs)"
proof -
  from psm_cells[OF assms(1-3)] obtain ct where ct: "ps_traces i j key tgl (0, 0) = Inr ct"
    and cell: "mat_get m i j = ps_ratio ct"
    by blast
  have "ct = (naive_count_total pairs, pair_total pairs)"
    using ct ps_traces_fold[OF assms(4), of "(0, 0)"] fold_ps_trace_step_sorted[OF assms(5), of "(0, 0)"]
    by simp
  then show ?thesis using cell assms(6) by (simp add: ps_ratio_def)
qed

text \<open>
  The theorem at three traces: one with a tie (activity 0 at 1 and 2, activity 1 at 2 and 3),
  one where activity 1 comes first, and one without activity 1.
\<close>

theorem ps_two_pointer_is_naive_ratio_witness:
  "get_precede_succeed_matrix [''A'', ''B'']
     [[[[''time:timestamp'' \<mapsto> PyNum 1], [''time:timestamp'' \<mapsto> PyNum 2]],
       [[''time:timestamp'' \<mapsto> PyNum 2], [''time:timestamp'' \<mapsto> PyNum 3]]],
      [[[''time:timestamp'' \<mapsto> PyNum 5]], [[''time:timestamp'' \<mapsto> PyNum 4]]],
      [[[''time:timestamp'' \<mapsto> PyNum 6]], []]]
     ''time:timestamp'' = Inr [[0, 3 / 5], [2 / 5, 0]]
   \<and> naive_count_total [([1, 2], [2, 3]), ([5], [4]), ([6], [])] = 3
   \<and> pair_total [([1, 2], [2, 3]), ([5], [4]), ([6], [])] = 5
   \<and> mat_get [[0, 3 / 5], [2 / 5, 0]] 0 1 = 3 / 5"
proof -
  let ?tgl = "[[[[''time:timestamp'' \<mapsto> PyNum 1], [''time:timestamp'' \<mapsto> PyNum 2]],
       [[''time:timestamp'' \<mapsto> PyNum 2], [''time:timestamp'' \<mapsto> PyNum 3]]],
      [[[''time:timestamp'' \<mapsto> PyNum 5]], [[''time:timestamp'' \<mapsto> PyNum 4]]],
      [[[''time:timestamp'' \<mapsto> PyNum 6]], []]] :: grouped_trace list"
  let ?pairs = "[([1, 2], [2, 3]), ([5], [4]), ([6], [])] :: (rat list \<times> rat list) list"
  have run: "get_precede_succeed_matrix [''A'', ''B''] ?tgl ''time:timestamp''
      = Inr [[0, 3 / 5], [2 / 5, 0]]"
    by code_simp
  have lists: "all_occurrence_lists 0 1 ''time:timestamp'' ?tgl = Inr ?pairs"
    by (simp add: occurrence_lists_def py_index_def)
  have srt: "\<forall>(ai, aj)\<in>set ?pairs. sorted ai \<and> sorted aj" by simp
  have nc: "naive_count_total ?pairs = 3"
    by (simp add: naive_count_total_def qualifying_def naive_count_def)
  have pt: "pair_total ?pairs = 5"
    by (simp add: pair_total_def qualifying_def)
  have "mat_get [[0, 3 / 5], [2 / 5, 0]] 0 1 = 3 / 5"
    using ps_two_pointer_is_naive_ratio[OF run _ _ lists srt] nc pt by simp
  with run nc pt show ?thesis by blast
qed

text \<open>
  C9. For every pair \<open>i \<noteq> j\<close>, appending one more trace in which both activities occur and
  every occurrence of \<open>i\<close> is strictly earlier than every occurrence of \<open>j\<close> does not
  decrease \<open>PS[i][j]\<close>.
\<close>

theorem ps_monotone_in_preceding_trace:
  assumes "get_precede_succeed_matrix activities tgl key = Inr m"
    and "get_precede_succeed_matrix activities (tgl @ [tr]) key = Inr m'"
    and "i < length activities" "j < length activities" "i \<noteq> j"
    and "occurrence_lists i j key tr = Inr (ai, aj)" "ai \<noteq> []" "aj \<noteq> []"
    and "\<forall>a\<in>set ai. \<forall>b\<in>set aj. a < b"
  shows "mat_get m i j \<le> mat_get m' i j"
proof (cases "i < j")
  case True
  from psm_cells[OF assms(1) True assms(4)] obtain ct where
    ct: "ps_traces i j key tgl (0, 0) = Inr ct" and old: "mat_get m i j = ps_ratio ct"
    by blast
  from psm_cells[OF assms(2) True assms(4)] obtain ct' where
    ct': "ps_traces i j key (tgl @ [tr]) (0, 0) = Inr ct'" and new: "mat_get m' i j = ps_ratio ct'"
    by blast
  have le: "fst ct \<le> snd ct" using ps_traces_le[OF ct] by simp
  have "ct' = ps_trace_step ai aj ct"
    using ct' ct assms(6) by (simp add: ps_traces_append)
  also have "\<dots> = (fst ct + length ai * length aj, snd ct + length ai * length aj)"
    using assms(7,8) ps_outer_all_earlier[OF assms(9), of 0 "fst ct"]
    by (simp add: ps_trace_step_def)
  finally have "ct' = (fst ct + length ai * length aj, snd ct + length ai * length aj)" .
  moreover have "length ai * length aj > 0" using assms(7,8) by simp
  ultimately show ?thesis using ps_ratio_grow[OF le] old new by simp
next
  case False
  then have ji: "j < i" using assms(5) by simp
  from psm_cells[OF assms(1) ji assms(3)] obtain ct where
    ct: "ps_traces j i key tgl (0, 0) = Inr ct" and old: "mat_get m i j = 1 - ps_ratio ct"
    by blast
  from psm_cells[OF assms(2) ji assms(3)] obtain ct' where
    ct': "ps_traces j i key (tgl @ [tr]) (0, 0) = Inr ct'"
    and new: "mat_get m' i j = 1 - ps_ratio ct'"
    by blast
  have le: "fst ct \<le> snd ct" using ps_traces_le[OF ct] by simp
  have none: "\<forall>b\<in>set aj. \<forall>a\<in>set ai. \<not> b < a" using assms(9) by fastforce
  have "ct' = ps_trace_step aj ai ct"
    using ct' ct occurrence_lists_swap[OF assms(6)] by (simp add: ps_traces_append)
  also have "\<dots> = (fst ct, snd ct + length aj * length ai)"
    using assms(7,8) ps_outer_none_earlier[OF none, of 0 0 "fst ct"]
    by (simp add: ps_trace_step_def)
  finally have eq: "ct' = (fst ct, snd ct + length aj * length ai)" .
  have "ps_ratio ct' \<le> ps_ratio ct"
  proof (cases "snd ct = 0")
    case True
    then have "fst ct = 0" using le by simp
    then show ?thesis using True eq by (simp add: ps_ratio_def)
  next
    case False
    then show ?thesis using ps_ratio_dilute[of ct "length aj * length ai"] eq by simp
  qed
  then show ?thesis using old new by simp
qed

text \<open>
  The theorem at a log whose only trace has activity 1 before activity 0, extended by a trace
  with activity 0 before activity 1: the entry rises from 0 to 1/2.
\<close>

theorem ps_monotone_in_preceding_trace_witness:
  "get_precede_succeed_matrix [''A'', ''B'']
     [[[[''time:timestamp'' \<mapsto> PyNum 2]], [[''time:timestamp'' \<mapsto> PyNum 1]]]]
     ''time:timestamp'' = Inr [[0, 0], [1, 0]]
   \<and> get_precede_succeed_matrix [''A'', ''B'']
     ([[[[''time:timestamp'' \<mapsto> PyNum 2]], [[''time:timestamp'' \<mapsto> PyNum 1]]]]
      @ [[[[''time:timestamp'' \<mapsto> PyNum 0]], [[''time:timestamp'' \<mapsto> PyNum 1]]]])
     ''time:timestamp'' = Inr [[0, 1 / 2], [1 / 2, 0]]
   \<and> mat_get [[0, 0], [1, 0]] 0 1 \<le> mat_get [[0, 1 / 2], [1 / 2, 0]] 0 1"
proof -
  let ?tgl = "[[[[''time:timestamp'' \<mapsto> PyNum 2]], [[''time:timestamp'' \<mapsto> PyNum 1]]]]
      :: grouped_trace list"
  let ?tr = "[[[''time:timestamp'' \<mapsto> PyNum 0]], [[''time:timestamp'' \<mapsto> PyNum 1]]]
      :: grouped_trace"
  have old: "get_precede_succeed_matrix [''A'', ''B''] ?tgl ''time:timestamp''
      = Inr [[0, 0], [1, 0]]"
    by code_simp
  have new: "get_precede_succeed_matrix [''A'', ''B''] (?tgl @ [?tr]) ''time:timestamp''
      = Inr [[0, 1 / 2], [1 / 2, 0]]"
    by code_simp
  have lists: "occurrence_lists 0 1 ''time:timestamp'' ?tr = Inr ([0], [1])"
    by (simp add: occurrence_lists_def py_index_def)
  have "mat_get [[0, 0], [1, 0]] 0 1 \<le> mat_get [[0, 1 / 2], [1 / 2, 0]] 0 1"
    using ps_monotone_in_preceding_trace[OF old new _ _ _ lists] by simp
  with old new show ?thesis by blast
qed

section \<open>The loops of the duration matrix\<close>

lemma fifo_inner_done: "\<not> z < length aj \<Longrightarrow> fifo_inner ai aj k z acc = (acc, z)"
  by (subst fifo_inner.simps) simp

lemma fifo_inner_hit:
  "z < length aj \<Longrightarrow> ai ! k < aj ! z \<Longrightarrow>
   fifo_inner ai aj k z acc = (acc @ [aj ! z - ai ! k], z + 1)"
  by (subst fifo_inner.simps) simp

lemma fifo_inner_miss:
  "z < length aj \<Longrightarrow> \<not> ai ! k < aj ! z \<Longrightarrow>
   fifo_inner ai aj k z acc = fifo_inner ai aj k (z + 1) acc"
  by (subst fifo_inner.simps) simp

lemma fifo_outer_step:
  "k < length ai \<Longrightarrow> fifo_outer ai aj k z acc =
     fifo_outer ai aj (k + 1) (snd (fifo_inner ai aj k z acc)) (fst (fifo_inner ai aj k z acc))"
  by (subst fifo_outer.simps) (simp add: case_prod_beta)

lemma fifo_outer_done: "\<not> k < length ai \<Longrightarrow> fifo_outer ai aj k z acc = acc"
  by (subst fifo_outer.simps) simp

lemma fifo_inner_acc:
  "fifo_inner ai aj k z acc = (acc @ fst (fifo_inner ai aj k z []), snd (fifo_inner ai aj k z []))"
proof (induction ai aj k z acc rule: fifo_inner.induct)
  case (1 ai aj k z times0)
  consider "\<not> z < length aj" | "z < length aj" "ai ! k < aj ! z"
    | "z < length aj" "\<not> ai ! k < aj ! z" by blast
  then show ?case
  proof cases
    case 1
    then show ?thesis by (simp add: fifo_inner_done)
  next
    case 2
    then show ?thesis by (simp add: fifo_inner_hit)
  next
    case 3
    then show ?thesis using "1.IH"[OF 3] by (simp add: fifo_inner_miss)
  qed
qed

lemma fifo_outer_acc: "fifo_outer ai aj k z acc = acc @ fifo_outer ai aj k z []"
proof (induction "length ai - k" arbitrary: k z acc)
  case 0
  then show ?case by (simp add: fifo_outer_done)
next
  case (Suc d)
  then have k: "k < length ai" by simp
  have d: "d = length ai - (k + 1)" using Suc.hyps(2) by simp
  obtain s z' where e: "fifo_inner ai aj k z [] = (s, z')" by (cases "fifo_inner ai aj k z []")
  have a: "fifo_inner ai aj k z acc = (acc @ s, z')"
    using fifo_inner_acc[of ai aj k z acc] e by simp
  have "fifo_outer ai aj k z acc = fifo_outer ai aj (k + 1) z' (acc @ s)"
    by (simp add: fifo_outer_step[OF k] a)
  also have "\<dots> = (acc @ s) @ fifo_outer ai aj (k + 1) z' []"
    by (rule Suc.hyps(1)[OF d])
  also have "\<dots> = acc @ fifo_outer ai aj (k + 1) z' s"
    using Suc.hyps(1)[OF d, of z' s] by simp
  also have "\<dots> = acc @ fifo_outer ai aj k z []"
    by (simp add: fifo_outer_step[OF k] e)
  finally show ?case .
qed

lemma lifo_inner_done: "\<not> k \<ge> 0 \<Longrightarrow> lifo_inner ai aj k z acc = (acc, k)"
  by (subst lifo_inner.simps) simp

lemma lifo_inner_hit:
  "k \<ge> 0 \<Longrightarrow> ai ! nat k < aj ! nat z \<Longrightarrow>
   lifo_inner ai aj k z acc = (acc @ [aj ! nat z - ai ! nat k], k - 1)"
  by (subst lifo_inner.simps) simp

lemma lifo_inner_miss:
  "k \<ge> 0 \<Longrightarrow> \<not> ai ! nat k < aj ! nat z \<Longrightarrow>
   lifo_inner ai aj k z acc = lifo_inner ai aj (k - 1) z acc"
  by (subst lifo_inner.simps) simp

lemma lifo_outer_step:
  "z \<ge> 0 \<Longrightarrow> lifo_outer ai aj k z acc =
     lifo_outer ai aj (snd (lifo_inner ai aj k z acc)) (z - 1) (fst (lifo_inner ai aj k z acc))"
  by (subst lifo_outer.simps) (simp add: case_prod_beta)

lemma lifo_outer_done: "\<not> z \<ge> 0 \<Longrightarrow> lifo_outer ai aj k z acc = acc"
  by (subst lifo_outer.simps) simp

lemma lifo_inner_acc:
  "lifo_inner ai aj k z acc = (acc @ fst (lifo_inner ai aj k z []), snd (lifo_inner ai aj k z []))"
proof (induction ai aj k z acc rule: lifo_inner.induct)
  case (1 ai aj k z times1)
  consider "\<not> k \<ge> 0" | "k \<ge> 0" "ai ! nat k < aj ! nat z"
    | "k \<ge> 0" "\<not> ai ! nat k < aj ! nat z" by blast
  then show ?case
  proof cases
    case 1
    then show ?thesis by (simp add: lifo_inner_done)
  next
    case 2
    then show ?thesis by (simp add: lifo_inner_hit)
  next
    case 3
    then show ?thesis using "1.IH"[OF 3] by (simp add: lifo_inner_miss)
  qed
qed

lemma lifo_outer_acc: "lifo_outer ai aj k z acc = acc @ lifo_outer ai aj k z []"
proof (induction "nat (z + 1)" arbitrary: k z acc)
  case 0
  then show ?case by (simp add: lifo_outer_done)
next
  case (Suc d)
  then have z: "z \<ge> 0" by simp
  have d: "d = nat (z - 1 + 1)" using Suc.hyps(2) by simp
  obtain s k' where e: "lifo_inner ai aj k z [] = (s, k')" by (cases "lifo_inner ai aj k z []")
  have a: "lifo_inner ai aj k z acc = (acc @ s, k')"
    using lifo_inner_acc[of ai aj k z acc] e by simp
  have "lifo_outer ai aj k z acc = lifo_outer ai aj k' (z - 1) (acc @ s)"
    by (simp add: lifo_outer_step[OF z] a)
  also have "\<dots> = (acc @ s) @ lifo_outer ai aj k' (z - 1) []"
    by (rule Suc.hyps(1)[OF d])
  also have "\<dots> = acc @ lifo_outer ai aj k' (z - 1) s"
    using Suc.hyps(1)[OF d, of k' s] by simp
  also have "\<dots> = acc @ lifo_outer ai aj k z []"
    by (simp add: lifo_outer_step[OF z] e)
  finally show ?case .
qed

lemma dur_trace_step_samples:
  "dur_trace_step ai aj tt =
     (if ai \<noteq> [] \<and> aj \<noteq> [] then (fst tt @ fifo_match ai aj, snd tt @ lifo_match ai aj)
      else tt)"
  using fifo_outer_acc[of ai aj 0 0 "fst tt"]
    lifo_outer_acc[of ai aj "int (length ai) - 1" "int (length aj) - 1" "snd tt"]
  by (simp add: dur_trace_step_def fifo_match_def lifo_match_def)

lemma dur_traces_samples:
  assumes "all_occurrence_lists i j key tgl = Inr pairs"
  shows "dur_traces i j key tgl tt = Inr (fst tt @ fifo_samples pairs, snd tt @ lifo_samples pairs)"
  using assms
proof (induction tgl arbitrary: tt pairs)
  case Nil
  then show ?case by (simp add: fifo_samples_def lifo_samples_def qualifying_def)
next
  case (Cons tr tgl)
  from Cons.prems obtain ai aj rest where p: "occurrence_lists i j key tr = Inr (ai, aj)"
    and rest: "all_occurrence_lists i j key tgl = Inr rest" and pairs: "pairs = (ai, aj) # rest"
    by (auto split: sum.splits)
  show ?case
    by (simp add: p Cons.IH[OF rest] pairs dur_trace_step_samples fifo_samples_def
        lifo_samples_def qualifying_def)
qed

lemma dur_traces_all_lists:
  "dur_traces i j key tgl tt = Inr tt' \<Longrightarrow> \<exists>pairs. all_occurrence_lists i j key tgl = Inr pairs"
proof (induction tgl arbitrary: tt)
  case Nil
  then show ?case by simp
next
  case (Cons tr tgl)
  from Cons.prems obtain ai aj where p: "occurrence_lists i j key tr = Inr (ai, aj)"
    and rest: "dur_traces i j key tgl (dur_trace_step ai aj tt) = Inr tt'"
    by (auto split: sum.splits)
  from Cons.IH[OF rest] p show ?case by auto
qed

lemma dur_j_loop_square:
  "dur_j_loop i key tgl js ret = Inr ret' \<Longrightarrow> square n ret \<Longrightarrow> square n ret'"
  by (induction js arbitrary: ret) (auto split: sum.splits if_splits intro: square_mat_set)

lemma dur_j_loop_frame:
  assumes "dur_j_loop i key tgl js ret = Inr ret'" "square n ret" "i < n"
    and "\<forall>j\<in>set js. j < n" "\<not> (a = i \<and> b \<in> set js \<and> b \<noteq> i)"
  shows "mat_get ret' a b = mat_get ret a b"
  using assms
proof (induction js arbitrary: ret)
  case Nil
  then show ?case by simp
next
  case (Cons j js)
  show ?case
  proof (cases "i = j")
    case True
    then show ?thesis using Cons by auto
  next
    case False
    from Cons.prems(1) False obtain tt where
      rest: "dur_j_loop i key tgl js
        (mat_set ret i j (min (mean_or_0 (fst tt)) (mean_or_0 (snd tt)))) = Inr ret'"
      by (auto split: sum.splits)
    have "mat_get ret' a b =
        mat_get (mat_set ret i j (min (mean_or_0 (fst tt)) (mean_or_0 (snd tt)))) a b"
      using Cons.IH[OF rest square_mat_set[OF Cons.prems(2)] Cons.prems(3)] Cons.prems(4,5)
      by auto
    also have "\<dots> = mat_get ret a b"
      using Cons.prems(4,5) False by (auto simp: mat_get_mat_set[OF Cons.prems(2,3)])
    finally show ?thesis .
  qed
qed

lemma dur_j_loop_cells:
  assumes "dur_j_loop i key tgl js ret = Inr ret'" "square n ret" "i < n"
    and "\<forall>j\<in>set js. j < n" "distinct js" "j \<in> set js" "j \<noteq> i"
  shows "\<exists>pairs. all_occurrence_lists i j key tgl = Inr pairs \<and>
           mat_get ret' i j = duration_value pairs"
  using assms
proof (induction js arbitrary: ret)
  case Nil
  then show ?case by simp
next
  case (Cons j' js)
  have j': "j' < n" using Cons.prems(4) by simp
  show ?case
  proof (cases "j = j'")
    case True
    with Cons.prems have notin: "j \<notin> set js" and ne: "i \<noteq> j'" by auto
    from Cons.prems(1) ne obtain tt where tt: "dur_traces i j' key tgl ([], []) = Inr tt"
      and rest: "dur_j_loop i key tgl js
        (mat_set ret i j' (min (mean_or_0 (fst tt)) (mean_or_0 (snd tt)))) = Inr ret'"
      by (auto split: sum.splits)
    from dur_traces_all_lists[OF tt] obtain pairs where
      pairs: "all_occurrence_lists i j' key tgl = Inr pairs" by blast
    have ttv: "tt = (fifo_samples pairs, lifo_samples pairs)"
      using tt dur_traces_samples[OF pairs, of "([], [])"] by simp
    have "mat_get ret' i j =
        mat_get (mat_set ret i j' (min (mean_or_0 (fst tt)) (mean_or_0 (snd tt)))) i j"
      using dur_j_loop_frame[OF rest square_mat_set[OF Cons.prems(2)] Cons.prems(3), of i j]
        Cons.prems(4) notin by auto
    also have "\<dots> = duration_value pairs"
      using True j' by (simp add: mat_get_mat_set[OF Cons.prems(2,3)] ttv duration_value_def)
    finally show ?thesis using pairs True by blast
  next
    case False
    show ?thesis
    proof (cases "i = j'")
      case True
      then show ?thesis using Cons False by auto
    next
      case ne: False
      from Cons.prems(1) ne obtain tt where
        rest: "dur_j_loop i key tgl js
          (mat_set ret i j' (min (mean_or_0 (fst tt)) (mean_or_0 (snd tt)))) = Inr ret'"
        by (auto split: sum.splits)
      show ?thesis
        using Cons.IH[OF rest square_mat_set[OF Cons.prems(2)] Cons.prems(3)] Cons.prems False
        by auto
    qed
  qed
qed

lemma dur_i_loop_square:
  "dur_i_loop n key tgl is ret = Inr ret' \<Longrightarrow> square n ret \<Longrightarrow> square n ret'"
  by (induction "is" arbitrary: ret) (auto split: sum.splits dest: dur_j_loop_square)

lemma dur_i_loop_frame:
  assumes "dur_i_loop n key tgl is ret = Inr ret'" "square n ret" "\<forall>i\<in>set is. i < n"
    and "a = b \<or> a \<notin> set is"
  shows "mat_get ret' a b = mat_get ret a b"
  using assms
proof (induction "is" arbitrary: ret)
  case Nil
  then show ?case by simp
next
  case (Cons i "is")
  from Cons.prems(1) obtain ret1 where jl: "dur_j_loop i key tgl [0..<n] ret = Inr ret1"
    and rest: "dur_i_loop n key tgl is ret1 = Inr ret'"
    by (auto split: sum.splits)
  have sq: "square n ret1" using dur_j_loop_square[OF jl Cons.prems(2)] .
  have "mat_get ret' a b = mat_get ret1 a b"
    using Cons.IH[OF rest sq] Cons.prems by auto
  also have "\<dots> = mat_get ret a b"
    using dur_j_loop_frame[OF jl Cons.prems(2), of a b] Cons.prems(3,4) by auto
  finally show ?case .
qed

lemma dur_i_loop_cells:
  assumes "dur_i_loop n key tgl is ret = Inr ret'" "square n ret" "\<forall>i\<in>set is. i < n"
    and "distinct is" "i \<in> set is" "j < n" "j \<noteq> i"
  shows "\<exists>pairs. all_occurrence_lists i j key tgl = Inr pairs \<and>
           mat_get ret' i j = duration_value pairs"
  using assms
proof (induction "is" arbitrary: ret)
  case Nil
  then show ?case by simp
next
  case (Cons i' "is")
  from Cons.prems(1) obtain ret1 where jl: "dur_j_loop i' key tgl [0..<n] ret = Inr ret1"
    and rest: "dur_i_loop n key tgl is ret1 = Inr ret'"
    by (auto split: sum.splits)
  have sq: "square n ret1" using dur_j_loop_square[OF jl Cons.prems(2)] .
  have i': "i' < n" using Cons.prems(3) by simp
  show ?case
  proof (cases "i = i'")
    case True
    with Cons.prems have notin: "i \<notin> set is" by simp
    have "\<exists>pairs. all_occurrence_lists i j key tgl = Inr pairs \<and>
           mat_get ret1 i j = duration_value pairs"
      using dur_j_loop_cells[OF jl Cons.prems(2) i', of j] Cons.prems(6,7) True by auto
    moreover have "mat_get ret' i j = mat_get ret1 i j"
      using dur_i_loop_frame[OF rest sq, of i j] Cons.prems(3) notin by auto
    ultimately show ?thesis by simp
  next
    case False
    then show ?thesis
      using Cons.IH[OF rest sq] Cons.prems by auto
  qed
qed

subsection \<open>The LIFO scan on sorted lists\<close>

lemma sorted_le_last: "sorted js \<Longrightarrow> b \<in> set js \<Longrightarrow> b \<le> last js"
  by (induction js) auto

lemma all_same_butlast: "\<forall>y\<in>set xs. y = x \<Longrightarrow> xs \<noteq> [] \<Longrightarrow> x # butlast xs = xs"
  by (induction xs) auto

lemma remove1_last_sorted:
  "sorted js \<Longrightarrow> js \<noteq> [] \<Longrightarrow> remove1 (last js) js = butlast js"
proof (induction js)
  case Nil
  then show ?case by simp
next
  case (Cons x xs)
  show ?case
  proof (cases "xs = []")
    case True
    then show ?thesis by simp
  next
    case False
    have sx: "sorted xs" using Cons.prems(1) by simp
    show ?thesis
    proof (cases "x = last xs")
      case True
      have "\<forall>y\<in>set xs. y = x"
      proof
        fix y assume y: "y \<in> set xs"
        then have "x \<le> y" using Cons.prems(1) by simp
        moreover have "y \<le> last xs" using sorted_le_last[OF sx y] .
        ultimately show "y = x" using True by simp
      qed
      then have "x # butlast xs = xs" using False by (rule all_same_butlast)
      then show ?thesis using True False by simp
    next
      case ne: False
      then show ?thesis using Cons.IH[OF sx False] False by simp
    qed
  qed
qed

lemma take_latest_after_sorted_hit:
  assumes "sorted js" "js \<noteq> []" "a < last js"
  shows "take_latest_after a js = Some (last js, butlast js)"
proof -
  let ?q = "filter (\<lambda>b. a < b) js"
  have in_q: "last js \<in> set ?q" using assms(2,3) by simp
  have "\<forall>b\<in>set ?q. b \<le> last js"
    using sorted_le_last[OF assms(1)] by simp
  then have "Max (set ?q) = last js" using in_q by (intro Max_eqI) auto
  moreover have "?q \<noteq> []" using in_q by (auto simp: filter_empty_conv)
  ultimately show ?thesis
    using remove1_last_sorted[OF assms(1,2)] by (simp add: take_latest_after_def Let_def)
qed

lemma take_latest_after_sorted_miss:
  assumes "sorted js" "js = [] \<or> \<not> a < last js"
  shows "take_latest_after a js = None"
proof -
  have "\<not> a < b" if "b \<in> set js" for b
  proof -
    have "b \<le> last js" using sorted_le_last[OF assms(1) that] .
    moreover have "\<not> a < last js" using assms(2) that by auto
    ultimately show ?thesis by simp
  qed
  then show ?thesis by (simp add: take_latest_after_def Let_def filter_empty_conv)
qed

lemma lifo_scan_no_candidates: "lifo_scan as [] = []"
  by (induction as) (simp_all add: take_latest_after_def)

lemma take_latest_after_prefix:
  assumes "sorted aj" "z < length aj"
  shows "take_latest_after a (take (Suc z) aj) =
     (if a < aj ! z then Some (aj ! z, take z aj) else None)"
proof -
  let ?js = "take (Suc z) aj"
  have js: "?js = take z aj @ [aj ! z]" using assms(2) by (simp add: take_Suc_conv_app_nth)
  have srt: "sorted ?js" using assms(1) by (rule sorted_wrt_take)
  have ne: "?js \<noteq> []" and l: "last ?js = aj ! z" and b: "butlast ?js = take z aj"
    unfolding js by simp_all
  show ?thesis
  proof (cases "a < aj ! z")
    case True
    then show ?thesis using take_latest_after_sorted_hit[OF srt ne, of a] l b by simp
  next
    case False
    then show ?thesis using take_latest_after_sorted_miss[OF srt, of a] l by simp
  qed
qed

lemma lifo_inner_snd_le: "snd (lifo_inner ai aj k z acc) \<le> k"
proof (induction ai aj k z acc rule: lifo_inner.induct)
  case (1 ai aj k z times1)
  consider "\<not> k \<ge> 0" | "k \<ge> 0" "ai ! nat k < aj ! nat z"
    | "k \<ge> 0" "\<not> ai ! nat k < aj ! nat z" by blast
  then show ?case
  proof cases
    case 1
    then show ?thesis by (simp add: lifo_inner_done)
  next
    case 2
    then show ?thesis by (simp add: lifo_inner_hit)
  next
    case 3
    then show ?thesis using "1.IH"[OF 3] by (simp add: lifo_inner_miss)
  qed
qed

lemma lifo_inner_scan:
  assumes "sorted aj" "0 \<le> z" "nat z < length aj" "k < int (length ai)"
  shows "acc @ lifo_scan (rev (take (nat (k + 1)) ai)) (take (nat (z + 1)) aj) =
     fst (lifo_inner ai aj k z acc) @
       lifo_scan (rev (take (nat (snd (lifo_inner ai aj k z acc) + 1)) ai)) (take (nat z) aj)"
  using assms
proof (induction ai aj k z acc rule: lifo_inner.induct)
  case (1 ai aj k z times1)
  have zs: "nat (z + 1) = Suc (nat z)" using "1.prems"(2) by simp
  show ?case
  proof (cases "k \<ge> 0")
    case False
    then have "nat (k + 1) = 0" by simp
    then show ?thesis using False by (simp add: lifo_inner_done)
  next
    case True
    then have ks: "nat (k + 1) = Suc (nat k)" and kl: "nat k < length ai"
      using "1.prems"(4) by simp_all
    have rv: "rev (take (nat (k + 1)) ai) = ai ! nat k # rev (take (nat k) ai)"
      using kl by (simp add: ks take_Suc_conv_app_nth)
    note tl = take_latest_after_prefix[OF "1.prems"(1,3), of "ai ! nat k"]
    show ?thesis
    proof (cases "ai ! nat k < aj ! nat z")
      case hit: True
      show ?thesis
        using True hit by (simp add: rv zs tl lifo_inner_hit)
    next
      case miss: False
      have "times1 @ lifo_scan (rev (take (nat (k + 1)) ai)) (take (nat (z + 1)) aj) =
          times1 @ lifo_scan (rev (take (nat (k - 1 + 1)) ai)) (take (nat (z + 1)) aj)"
        using miss by (simp add: rv zs tl)
      also have "\<dots> = fst (lifo_inner ai aj (k - 1) z times1) @
          lifo_scan (rev (take (nat (snd (lifo_inner ai aj (k - 1) z times1) + 1)) ai))
            (take (nat z) aj)"
        using "1.IH"[OF True miss "1.prems"(1,2,3)] "1.prems"(4) by simp
      finally show ?thesis using True miss by (simp add: lifo_inner_miss)
    qed
  qed
qed

lemma lifo_outer_scan:
  assumes "sorted aj" "z < int (length aj)" "k < int (length ai)"
  shows "lifo_outer ai aj k z acc =
     acc @ lifo_scan (rev (take (nat (k + 1)) ai)) (take (nat (z + 1)) aj)"
  using assms(2,3)
proof (induction "nat (z + 1)" arbitrary: k z acc)
  case 0
  then have "nat (z + 1) = 0" "\<not> z \<ge> 0" by simp_all
  then show ?case by (simp add: lifo_outer_done lifo_scan_no_candidates)
next
  case (Suc d)
  then have z: "z \<ge> 0" and zl: "nat z < length aj" by simp_all
  have d: "d = nat (z - 1 + 1)" using Suc.hyps(2) by simp
  let ?r = "lifo_inner ai aj k z acc"
  have k': "snd ?r < int (length ai)"
    using lifo_inner_snd_le[of ai aj k z acc] Suc.prems(2) by simp
  have "lifo_outer ai aj k z acc = lifo_outer ai aj (snd ?r) (z - 1) (fst ?r)"
    by (rule lifo_outer_step[OF z])
  also have "\<dots> = fst ?r @ lifo_scan (rev (take (nat (snd ?r + 1)) ai)) (take (nat (z - 1 + 1)) aj)"
    using Suc.hyps(1)[OF d _ k'] Suc.prems(1) by simp
  also have "\<dots> = acc @ lifo_scan (rev (take (nat (k + 1)) ai)) (take (nat (z + 1)) aj)"
    using lifo_inner_scan[OF assms(1) z zl Suc.prems(2), of acc] by simp
  finally show ?case .
qed

subsection \<open>The FIFO scan on sorted lists\<close>

text \<open>
  The pointer of the FIFO scan moves as the pointer of the two-pointer merge does, so the
  lemmas about \<open>ps_inner\<close> describe it.
\<close>

lemma fifo_inner_pointer:
  "fifo_inner ai aj k z acc =
     (if ps_inner ai aj k z < length aj
      then (acc @ [aj ! ps_inner ai aj k z - ai ! k], ps_inner ai aj k z + 1)
      else (acc, ps_inner ai aj k z))"
proof (induction ai aj k z acc rule: fifo_inner.induct)
  case (1 ai aj k z times0)
  consider "\<not> z < length aj" | "z < length aj" "ai ! k < aj ! z"
    | "z < length aj" "\<not> ai ! k < aj ! z" by blast
  then show ?case
  proof cases
    case 1
    then show ?thesis by (simp add: fifo_inner_done ps_inner_done)
  next
    case 2
    then show ?thesis by (simp add: fifo_inner_hit ps_inner_hit)
  next
    case 3
    then show ?thesis using "1.IH"[OF 3] by (simp add: fifo_inner_miss ps_inner_miss)
  qed
qed

lemma sorted_drop_later:
  assumes "sorted aj" "s < length aj" "a < aj ! s" "b \<in> set (drop s aj)"
  shows "a < b"
proof -
  from assms(4) obtain p where p: "s \<le> p" "p < length aj" "b = aj ! p"
    by (auto simp: in_set_conv_nth) (metis add.commute le_add1 less_diff_conv)
  have "aj ! s \<le> aj ! p" using assms(1) p by (simp add: sorted_iff_nth_mono)
  then show ?thesis using assms(3) p by simp
qed

lemma skipped_not_later:
  assumes "z \<le> length aj" "b \<in> set (take (ps_inner ai aj k z - z) (drop z aj))"
  shows "\<not> ai ! k < b"
proof -
  let ?s = "ps_inner ai aj k z"
  from assms(2) obtain p where p: "p < ?s - z" "p < length aj - z" "b = drop z aj ! p"
    by (auto simp: in_set_conv_nth)
  then have "b = aj ! (z + p)" using assms(1) by simp
  moreover have "\<not> ai ! k < aj ! (z + p)"
    using ps_inner_skipped[of z "z + p" ai aj k] p by simp
  ultimately show ?thesis by simp
qed

lemma take_earliest_after_pointer:
  assumes "sorted aj" "z \<le> length aj" "\<forall>b\<in>set pre. \<not> a < b" "a = ai ! k"
  shows "take_earliest_after a (pre @ drop z aj) =
     (if ps_inner ai aj k z < length aj
      then Some (aj ! ps_inner ai aj k z,
             (pre @ take (ps_inner ai aj k z - z) (drop z aj)) @ drop (ps_inner ai aj k z + 1) aj)
      else None)"
proof -
  let ?s = "ps_inner ai aj k z"
  let ?mid = "take (?s - z) (drop z aj)"
  have r: "z \<le> ?s" "?s \<le> length aj" using ps_inner_range[OF assms(2)] by auto
  have split: "drop z aj = ?mid @ drop ?s aj"
    using r by (metis append_take_drop_id drop_drop le_add_diff_inverse2 add.commute)
  have mid: "\<forall>b\<in>set ?mid. \<not> a < b"
    using skipped_not_later[OF assms(2)] assms(4) by blast
  have q: "filter (\<lambda>b. a < b) (pre @ drop z aj) = filter (\<lambda>b. a < b) (drop ?s aj)"
    using assms(3) mid by (subst split) (simp add: filter_empty_conv)
  show ?thesis
  proof (cases "?s < length aj")
    case True
    have hit: "a < aj ! ?s" using ps_inner_stop[OF True] assms(4) by simp
    have later: "\<forall>b\<in>set (drop ?s aj). a < b"
      using sorted_drop_later[OF assms(1) True hit] by blast
    then have q': "filter (\<lambda>b. a < b) (pre @ drop z aj) = drop ?s aj"
      using q by (simp add: filter_id_conv)
    have d: "drop ?s aj = aj ! ?s # drop (?s + 1) aj"
      using True by (simp add: Cons_nth_drop_Suc)
    have "\<forall>b\<in>set (drop ?s aj). aj ! ?s \<le> b"
    proof
      fix b assume "b \<in> set (drop ?s aj)"
      then obtain p where p: "?s \<le> p" "p < length aj" "b = aj ! p"
        by (auto simp: in_set_conv_nth) (metis add.commute le_add1 less_diff_conv)
      then show "aj ! ?s \<le> b" using assms(1) by (simp add: sorted_iff_nth_mono)
    qed
    then have mn: "Min (set (drop ?s aj)) = aj ! ?s"
      using d by (intro Min_eqI) (auto simp: d[symmetric])
    have notin: "aj ! ?s \<notin> set pre" "aj ! ?s \<notin> set ?mid"
      using hit assms(3) mid by auto
    have "remove1 (aj ! ?s) (pre @ drop z aj) = (pre @ ?mid) @ drop (?s + 1) aj"
      using notin by (subst split) (simp add: remove1_append d)
    then show ?thesis
      using True q' mn d by (simp add: take_earliest_after_def Let_def)
  next
    case False
    then have "drop ?s aj = []" by simp
    then show ?thesis using False q by (simp add: take_earliest_after_def Let_def)
  qed
qed

lemma fifo_outer_scan:
  assumes "sorted ai" "sorted aj" "z \<le> length aj"
    and "\<forall>b\<in>set pre. k < length ai \<longrightarrow> \<not> ai ! k < b"
  shows "fifo_outer ai aj k z acc = acc @ fifo_scan (drop k ai) (pre @ drop z aj)"
  using assms(3,4)
proof (induction "length ai - k" arbitrary: k z acc pre)
  case 0
  then show ?case by (simp add: fifo_outer_done)
next
  case (Suc d)
  then have k: "k < length ai" by simp
  have d: "d = length ai - (k + 1)" using Suc.hyps(2) by simp
  let ?s = "ps_inner ai aj k z"
  let ?mid = "take (?s - z) (drop z aj)"
  have r: "z \<le> ?s" "?s \<le> length aj" using ps_inner_range[OF Suc.prems(1)] by auto
  have pre: "\<forall>b\<in>set pre. \<not> ai ! k < b" using Suc.prems(2) k by simp
  note te = take_earliest_after_pointer[OF assms(2) Suc.prems(1) pre refl]
  have dk: "drop k ai = ai ! k # drop (k + 1) ai" using k by (simp add: Cons_nth_drop_Suc)
  have next_le: "ai ! k \<le> ai ! (k + 1)" if "k + 1 < length ai"
    using assms(1) that by (simp add: sorted_iff_nth_mono)
  have mid: "\<forall>b\<in>set ?mid. \<not> ai ! k < b" using skipped_not_later[OF Suc.prems(1)] by blast
  show ?case
  proof (cases "?s < length aj")
    case True
    have pre': "\<forall>b\<in>set (pre @ ?mid). k + 1 < length ai \<longrightarrow> \<not> ai ! (k + 1) < b"
      using pre mid next_le by fastforce
    have "fifo_outer ai aj k z acc = fifo_outer ai aj (k + 1) (?s + 1) (acc @ [aj ! ?s - ai ! k])"
      using True by (simp add: fifo_outer_step[OF k] fifo_inner_pointer)
    also have "\<dots> = (acc @ [aj ! ?s - ai ! k]) @
        fifo_scan (drop (k + 1) ai) ((pre @ ?mid) @ drop (?s + 1) aj)"
      using True by (intro Suc.hyps(1)[OF d _ pre']) simp
    also have "\<dots> = acc @ fifo_scan (drop k ai) (pre @ drop z aj)"
      using True by (simp add: dk te)
    finally show ?thesis .
  next
    case False
    then have s: "?s = length aj" using r by simp
    have all: "drop z aj = ?mid" using s by simp
    have pre': "\<forall>b\<in>set (pre @ drop z aj). k + 1 < length ai \<longrightarrow> \<not> ai ! (k + 1) < b"
      using pre mid next_le all by fastforce
    have "fifo_outer ai aj k z acc = fifo_outer ai aj (k + 1) (length aj) acc"
      using False s by (simp add: fifo_outer_step[OF k] fifo_inner_pointer)
    also have "\<dots> = acc @ fifo_scan (drop (k + 1) ai) ((pre @ drop z aj) @ drop (length aj) aj)"
      by (intro Suc.hyps(1)[OF d _ pre']) simp
    also have "\<dots> = acc @ fifo_scan (drop k ai) (pre @ drop z aj)"
      using False by (simp add: dk te)
    finally show ?thesis .
  qed
qed

text \<open>
  On sorted lists the two scans of the code compute the two matches as the specification
  words them.
\<close>

lemma fifo_match_spec: "sorted ai \<Longrightarrow> sorted aj \<Longrightarrow> fifo_match ai aj = fifo_spec ai aj"
  using fifo_outer_scan[of ai aj 0 "[]" 0 "[]"]
  by (simp add: fifo_match_def fifo_spec_def sorted_sort_id)

lemma lifo_match_spec: "sorted ai \<Longrightarrow> sorted aj \<Longrightarrow> lifo_match ai aj = lifo_spec ai aj"
  using lifo_outer_scan[of aj "int (length aj) - 1" "int (length ai) - 1" ai "[]"]
  by (simp add: lifo_match_def lifo_spec_def sorted_sort_id)

lemma samples_spec:
  assumes "\<forall>(ai, aj)\<in>set pairs. sorted ai \<and> sorted aj"
  shows "fifo_samples pairs = fifo_spec_samples pairs"
    and "lifo_samples pairs = lifo_spec_samples pairs"
proof -
  have q: "\<forall>(ai, aj)\<in>set (qualifying pairs). sorted ai \<and> sorted aj"
    using assms by (auto simp: qualifying_def)
  have "map (\<lambda>(ai, aj). fifo_match ai aj) (qualifying pairs) =
        map (\<lambda>(ai, aj). fifo_spec ai aj) (qualifying pairs)"
    by (rule map_cong) (use q in \<open>auto simp: fifo_match_spec\<close>)
  then show "fifo_samples pairs = fifo_spec_samples pairs"
    by (simp only: fifo_samples_def fifo_spec_samples_def)
  have "map (\<lambda>(ai, aj). lifo_match ai aj) (qualifying pairs) =
        map (\<lambda>(ai, aj). lifo_spec ai aj) (qualifying pairs)"
    by (rule map_cong) (use q in \<open>auto simp: lifo_match_spec\<close>)
  then show "lifo_samples pairs = lifo_spec_samples pairs"
    by (simp only: lifo_samples_def lifo_spec_samples_def)
qed

section \<open>The matrix functions return on well-formed grouped logs\<close>

lemma timestamps_total:
  "list_all (\<lambda>x. case x key of Some (PyNum t) \<Rightarrow> True | _ \<Rightarrow> False) g \<Longrightarrow>
   \<exists>ts. timestamps key g = Inr ts"
  by (induction g) (auto split: option.splits pyval.splits)

lemma occurrence_lists_total:
  assumes "i < length tr" "j < length tr"
    and "list_all (list_all (\<lambda>x. case x key of Some (PyNum t) \<Rightarrow> True | _ \<Rightarrow> False)) tr"
  shows "\<exists>p. occurrence_lists i j key tr = Inr p"
proof -
  have "\<exists>ts. timestamps key (tr ! i) = Inr ts" "\<exists>ts. timestamps key (tr ! j) = Inr ts"
    using assms by (auto simp: list_all_length intro!: timestamps_total)
  then show ?thesis using assms(1,2) by (auto simp: occurrence_lists_def py_index_def)
qed

lemma all_occurrence_lists_total:
  assumes "well_grouped n key tgl" "i < n" "j < n"
  shows "\<exists>pairs. all_occurrence_lists i j key tgl = Inr pairs"
  using assms(1)
proof (induction tgl)
  case Nil
  then show ?case by simp
next
  case (Cons tr tgl)
  then have "\<exists>p. occurrence_lists i j key tr = Inr p"
    using assms(2,3) by (intro occurrence_lists_total) (auto simp: well_grouped_def)
  moreover have "\<exists>pairs. all_occurrence_lists i j key tgl = Inr pairs"
    using Cons by (simp add: well_grouped_def)
  ultimately show ?case by auto
qed

lemma ps_traces_total:
  assumes "well_grouped n key tgl" "i < n" "j < n"
  shows "\<exists>ct'. ps_traces i j key tgl ct = Inr ct'"
  using all_occurrence_lists_total[OF assms] ps_traces_fold by blast

lemma dur_traces_total:
  assumes "well_grouped n key tgl" "i < n" "j < n"
  shows "\<exists>tt'. dur_traces i j key tgl tt = Inr tt'"
  using all_occurrence_lists_total[OF assms] dur_traces_samples by blast

lemma ps_j_loop_total:
  assumes "well_grouped n key tgl" "i < n" "\<forall>j\<in>set js. j < n"
  shows "\<exists>ret'. ps_j_loop i key tgl js ret = Inr ret'"
  using assms(3)
proof (induction js arbitrary: ret)
  case Nil
  then show ?case by simp
next
  case (Cons j js)
  have "j < n" using Cons.prems by simp
  from ps_traces_total[OF assms(1,2) this, of "(0, 0)"] obtain ct where
    ct: "ps_traces i j key tgl (0, 0) = Inr ct" by blast
  have "\<exists>ret'. ps_j_loop i key tgl js (ps_write ret i j ct) = Inr ret'"
    using Cons.IH Cons.prems by simp
  then show ?case using ct by simp
qed

lemma ps_i_loop_total:
  assumes "well_grouped n key tgl" "\<forall>i\<in>set is. i < n"
  shows "\<exists>ret'. ps_i_loop n key tgl is ret = Inr ret'"
  using assms(2)
proof (induction "is" arbitrary: ret)
  case Nil
  then show ?case by simp
next
  case (Cons i "is")
  have "i < n" using Cons.prems by simp
  from ps_j_loop_total[OF assms(1) this, of "[i + 1..<n]" ret] obtain ret1 where
    r: "ps_j_loop i key tgl [i + 1..<n] ret = Inr ret1" by auto
  have "\<exists>ret'. ps_i_loop n key tgl is ret1 = Inr ret'"
    using Cons.IH Cons.prems by simp
  then show ?case using r by simp
qed

lemma dur_j_loop_total:
  assumes "well_grouped n key tgl" "i < n" "\<forall>j\<in>set js. j < n"
  shows "\<exists>ret'. dur_j_loop i key tgl js ret = Inr ret'"
  using assms(3)
proof (induction js arbitrary: ret)
  case Nil
  then show ?case by simp
next
  case (Cons j js)
  have "j < n" using Cons.prems by simp
  from dur_traces_total[OF assms(1,2) this, of "([], [])"] obtain tt where
    tt: "dur_traces i j key tgl ([], []) = Inr tt" by blast
  have "\<exists>ret'. dur_j_loop i key tgl js r = Inr ret'" for r
    using Cons.IH Cons.prems by simp
  then show ?case using tt by (cases "i = j") simp_all
qed

lemma dur_i_loop_total:
  assumes "well_grouped n key tgl" "\<forall>i\<in>set is. i < n"
  shows "\<exists>ret'. dur_i_loop n key tgl is ret = Inr ret'"
  using assms(2)
proof (induction "is" arbitrary: ret)
  case Nil
  then show ?case by simp
next
  case (Cons i "is")
  have "i < n" using Cons.prems by simp
  from dur_j_loop_total[OF assms(1) this, of "[0..<n]" ret] obtain ret1 where
    r: "dur_j_loop i key tgl [0..<n] ret = Inr ret1" by auto
  have "\<exists>ret'. dur_i_loop n key tgl is ret1 = Inr ret'"
    using Cons.IH Cons.prems by simp
  then show ?case using r by simp
qed

lemma get_precede_succeed_matrix_total:
  "well_grouped (length activities) key tgl \<Longrightarrow>
   \<exists>m. get_precede_succeed_matrix activities tgl key = Inr m"
  using ps_i_loop_total[of "length activities" key tgl "[0..<length activities]"]
  by (simp add: get_precede_succeed_matrix_def Let_def)

lemma get_duration_matrix_total:
  "well_grouped (length activities) key tgl \<Longrightarrow>
   \<exists>m. get_duration_matrix activities tgl key = Inr m"
  using dur_i_loop_total[of "length activities" key tgl "[0..<length activities]"]
  by (simp add: get_duration_matrix_def Let_def)

section \<open>Claims about the duration matrix\<close>

text \<open>
  C5. Whenever \<open>get_duration_matrix\<close> returns a matrix, its diagonal is 0, and for every
  ordered pair of distinct activity indices \<open>(i, j)\<close> the entry \<open>Duration[i][j]\<close> is the
  minimum of the arithmetic mean (the sum divided by the number) of the FIFO gap samples and
  the arithmetic mean of the LIFO gap samples, where an empty sample list counts as 0. This
  holds for the samples that the two scans of the code collect, on every input; and when the
  occurrence lists of the pair are sorted in every trace, as they are for grouped traces,
  these are the samples of the FIFO and LIFO matches in the words of the specification.
\<close>

theorem duration_is_min_of_means:
  assumes "get_duration_matrix activities tgl key = Inr m"
    and "i < length activities" "j < length activities"
  shows "mat_get m i i = 0 \<and>
    (i \<noteq> j \<longrightarrow> (\<exists>pairs. all_occurrence_lists i j key tgl = Inr pairs \<and>
       mat_get m i j =
         min (if fifo_samples pairs = [] then 0
              else sum_list (fifo_samples pairs) / of_nat (length (fifo_samples pairs)))
             (if lifo_samples pairs = [] then 0
              else sum_list (lifo_samples pairs) / of_nat (length (lifo_samples pairs))) \<and>
       ((\<forall>(ai, aj)\<in>set pairs. sorted ai \<and> sorted aj) \<longrightarrow>
          mat_get m i j =
            min (if fifo_spec_samples pairs = [] then 0
                 else sum_list (fifo_spec_samples pairs) /
                      of_nat (length (fifo_spec_samples pairs)))
                (if lifo_spec_samples pairs = [] then 0
                 else sum_list (lifo_spec_samples pairs) /
                      of_nat (length (lifo_spec_samples pairs))))))"
proof -
  let ?n = "length activities"
  have run: "dur_i_loop ?n key tgl [0..<?n] (np_zeros ?n ?n) = Inr m"
    using assms(1) by (simp add: get_duration_matrix_def Let_def)
  have diag: "mat_get m i i = 0"
    using dur_i_loop_frame[OF run square_np_zeros, of i i] assms(2)
    by (simp add: mat_get_np_zeros)
  have off: "\<exists>pairs. all_occurrence_lists i j key tgl = Inr pairs \<and>
       mat_get m i j =
         min (if fifo_samples pairs = [] then 0
              else sum_list (fifo_samples pairs) / of_nat (length (fifo_samples pairs)))
             (if lifo_samples pairs = [] then 0
              else sum_list (lifo_samples pairs) / of_nat (length (lifo_samples pairs))) \<and>
       ((\<forall>(ai, aj)\<in>set pairs. sorted ai \<and> sorted aj) \<longrightarrow>
          mat_get m i j =
            min (if fifo_spec_samples pairs = [] then 0
                 else sum_list (fifo_spec_samples pairs) /
                      of_nat (length (fifo_spec_samples pairs)))
                (if lifo_spec_samples pairs = [] then 0
                 else sum_list (lifo_spec_samples pairs) /
                      of_nat (length (lifo_spec_samples pairs))))"
    if ne: "i \<noteq> j"
  proof -
    from dur_i_loop_cells[OF run square_np_zeros, of i j] assms(2,3) ne
    obtain pairs where pairs: "all_occurrence_lists i j key tgl = Inr pairs"
      and cell: "mat_get m i j = duration_value pairs"
      by auto
    have code: "mat_get m i j =
         min (if fifo_samples pairs = [] then 0
              else sum_list (fifo_samples pairs) / of_nat (length (fifo_samples pairs)))
             (if lifo_samples pairs = [] then 0
              else sum_list (lifo_samples pairs) / of_nat (length (lifo_samples pairs)))"
      unfolding cell duration_value_def mean_or_0_def by simp
    have "mat_get m i j =
            min (if fifo_spec_samples pairs = [] then 0
                 else sum_list (fifo_spec_samples pairs) /
                      of_nat (length (fifo_spec_samples pairs)))
                (if lifo_spec_samples pairs = [] then 0
                 else sum_list (lifo_spec_samples pairs) /
                      of_nat (length (lifo_spec_samples pairs)))"
      if "\<forall>(ai, aj)\<in>set pairs. sorted ai \<and> sorted aj"
      using code samples_spec[OF that] by simp
    with pairs code show ?thesis by blast
  qed
  from diag off show ?thesis by blast
qed

text \<open>
  The theorem at three traces. In the first, activity 0 occurs at 0, 4, 5 and activity 1 at
  1, 2, 6, 9: the FIFO match gives the gaps 1, 2, 4 and the LIFO match the gaps 4, 2, 2. The
  second has no occurrence of activity 1, and the third adds the gap 10 to both lists. The
  entry is the smaller of the means 17/4 and 18/4.
\<close>

theorem duration_is_min_of_means_witness:
  "get_duration_matrix [''A'', ''B'']
     [[[[''time:timestamp'' \<mapsto> PyNum 0], [''time:timestamp'' \<mapsto> PyNum 4],
        [''time:timestamp'' \<mapsto> PyNum 5]],
       [[''time:timestamp'' \<mapsto> PyNum 1], [''time:timestamp'' \<mapsto> PyNum 2],
        [''time:timestamp'' \<mapsto> PyNum 6], [''time:timestamp'' \<mapsto> PyNum 9]]],
      [[[''time:timestamp'' \<mapsto> PyNum 1]], []],
      [[[''time:timestamp'' \<mapsto> PyNum 0]], [[''time:timestamp'' \<mapsto> PyNum 10]]]]
     ''time:timestamp'' = Inr [[0, 17 / 4], [3, 0]]
   \<and> fifo_spec_samples [([0, 4, 5], [1, 2, 6, 9]), ([1], []), ([0], [10])] = [1, 2, 4, 10]
   \<and> lifo_spec_samples [([0, 4, 5], [1, 2, 6, 9]), ([1], []), ([0], [10])] = [4, 2, 2, 10]
   \<and> mat_get [[0, 17 / 4], [3, 0]] 0 0 = 0
   \<and> mat_get [[0, 17 / 4], [3, 0]] 0 1 = min ((1 + 2 + 4 + 10) / 4) ((4 + 2 + 2 + 10) / 4)"
proof -
  let ?tgl = "[[[[''time:timestamp'' \<mapsto> PyNum 0], [''time:timestamp'' \<mapsto> PyNum 4],
        [''time:timestamp'' \<mapsto> PyNum 5]],
       [[''time:timestamp'' \<mapsto> PyNum 1], [''time:timestamp'' \<mapsto> PyNum 2],
        [''time:timestamp'' \<mapsto> PyNum 6], [''time:timestamp'' \<mapsto> PyNum 9]]],
      [[[''time:timestamp'' \<mapsto> PyNum 1]], []],
      [[[''time:timestamp'' \<mapsto> PyNum 0]], [[''time:timestamp'' \<mapsto> PyNum 10]]]]
      :: grouped_trace list"
  let ?pairs = "[([0, 4, 5], [1, 2, 6, 9]), ([1], []), ([0], [10])]
      :: (rat list \<times> rat list) list"
  have run: "get_duration_matrix [''A'', ''B''] ?tgl ''time:timestamp''
      = Inr [[0, 17 / 4], [3, 0]]"
    by code_simp
  have lists: "all_occurrence_lists 0 1 ''time:timestamp'' ?tgl = Inr ?pairs"
    by (simp add: occurrence_lists_def py_index_def)
  have srt: "\<forall>(ai, aj)\<in>set ?pairs. sorted ai \<and> sorted aj" by simp
  have f: "fifo_spec_samples ?pairs = [1, 2, 4, 10]"
    by (simp add: fifo_spec_samples_def qualifying_def fifo_spec_def take_earliest_after_def)
  have l: "lifo_spec_samples ?pairs = [4, 2, 2, 10]"
    by (simp add: lifo_spec_samples_def qualifying_def lifo_spec_def take_latest_after_def)
  from duration_is_min_of_means[OF run, of 0 1] lists srt
  have "mat_get [[0, 17 / 4], [3, 0]] 0 0 = 0
      \<and> mat_get [[0, 17 / 4], [3, 0]] 0 1 =
          min (if fifo_spec_samples ?pairs = [] then 0
               else sum_list (fifo_spec_samples ?pairs) /
                    of_nat (length (fifo_spec_samples ?pairs)))
              (if lifo_spec_samples ?pairs = [] then 0
               else sum_list (lifo_spec_samples ?pairs) /
                    of_nat (length (lifo_spec_samples ?pairs)))"
    by auto
  then have "mat_get [[0, 17 / 4], [3, 0]] 0 0 = 0
      \<and> mat_get [[0, 17 / 4], [3, 0]] 0 1 = min ((1 + 2 + 4 + 10) / 4) ((4 + 2 + 2 + 10) / 4)"
    unfolding f l by simp
  with run f l show ?thesis by blast
qed

text \<open>
  C6. For a trace with sorted non-empty occurrence lists \<open>ai\<close> and \<open>aj\<close>, the samples
  that the LIFO scan of \<open>get_duration_matrix\<close> appends are the gaps obtained by scanning
  \<open>ai\<close> in decreasing time order and letting each occurrence consume the latest not yet
  consumed occurrence of \<open>j\<close> with a strictly greater timestamp.
\<close>

theorem lifo_scan_refines_latest_match:
  assumes "sorted ai" "sorted aj" "ai \<noteq> []" "aj \<noteq> []"
  shows "snd (dur_trace_step ai aj tt) = snd tt @ lifo_spec ai aj"
proof -
  have "lifo_outer ai aj (int (length ai) - 1) (int (length aj) - 1) (snd tt) =
      snd tt @ lifo_scan (rev (take (nat (int (length ai) - 1 + 1)) ai))
        (take (nat (int (length aj) - 1 + 1)) aj)"
    by (rule lifo_outer_scan[OF assms(2)]) simp_all
  also have "\<dots> = snd tt @ lifo_scan (rev ai) aj" by simp
  also have "\<dots> = snd tt @ lifo_spec ai aj"
    using assms(1) by (simp add: lifo_spec_def sorted_sort_id)
  finally show ?thesis using assms(3,4) by (simp add: dur_trace_step_def)
qed

text \<open>
  The theorem at lists with repeated timestamps: the occurrence at 5 finds no later
  partner, the two at 2 consume 4 and the later 3, and the one at 0 consumes the other 3.
\<close>

theorem lifo_scan_refines_latest_match_witness:
  "sorted [0, 2, 2, 5 :: rat] \<and> sorted [1, 2, 3, 3, 4 :: rat]
   \<and> lifo_spec [0, 2, 2, 5] [1, 2, 3, 3, 4] = [2, 1, 3]
   \<and> snd (dur_trace_step [0, 2, 2, 5] [1, 2, 3, 3, 4] ([], [7])) = [7, 2, 1, 3]"
proof -
  have s: "sorted [0, 2, 2, 5 :: rat]" "sorted [1, 2, 3, 3, 4 :: rat]" by simp_all
  have spec: "lifo_spec [0, 2, 2, 5] [1, 2, 3, 3, 4] = [2, 1, 3]"
    by (simp add: lifo_spec_def take_latest_after_def)
  have "snd (dur_trace_step [0, 2, 2, 5] [1, 2, 3, 3, 4] ([], [7])) = [7, 2, 1, 3]"
    using lifo_scan_refines_latest_match[OF s, of "([], [7])"] spec by simp
  with s spec show ?thesis by blast
qed

section \<open>Preprocessing and the entry point: lemmas\<close>

lemma load_traces_list: "load_name apply_locals ''traces_list'' = Inl (NameError ''traces_list'')"
  by (simp add: load_name_def apply_locals_def module_globals_def python_builtins_def)

lemma traverse_zip:
  "traverse f xs = Inr keys \<Longrightarrow>
     length keys = length xs \<and> (\<forall>(k, x)\<in>set (zip keys xs). f x = Inr k)"
proof (induction xs arbitrary: keys)
  case Nil
  then show ?case by simp
next
  case (Cons x xs)
  from Cons.prems obtain k ks where k: "f x = Inr k" and ks: "traverse f xs = Inr ks"
    and keys: "keys = k # ks"
    by (auto split: sum.splits)
  from Cons.IH[OF ks] k keys show ?case by auto
qed

lemma traverse_pairs:
  "\<forall>(k, x)\<in>set zs. f x = Inr k \<Longrightarrow> traverse f (map snd zs) = Inr (map fst zs)"
  by (induction zs) auto

lemma py_sorted_sorted:
  assumes "py_sorted f xs = Inr ys"
  shows "\<exists>keys. traverse f ys = Inr keys \<and> sorted keys \<and> length ys = length xs
    \<and> set ys = set xs"
proof -
  from assms obtain keys where keys: "traverse f xs = Inr keys"
    and ys: "ys = map snd (sort_key fst (zip keys xs))"
    by (auto simp: py_sorted_def split: sum.splits)
  let ?zs = "sort_key fst (zip keys xs)"
  from traverse_zip[OF keys] have len: "length keys = length xs"
    and ok: "\<forall>(k, x)\<in>set (zip keys xs). f x = Inr k" by auto
  have "\<forall>(k, x)\<in>set ?zs. f x = Inr k" using ok by simp
  then have "traverse f ys = Inr (map fst ?zs)" unfolding ys by (rule traverse_pairs)
  moreover have "sorted (map fst ?zs)" by (rule sorted_sort_key)
  moreover have "length ys = length xs" using len by (simp add: ys)
  moreover have "set ys = set xs"
  proof -
    have "set ys = snd ` set (zip keys xs)" by (simp add: ys)
    also have "\<dots> = set (map snd (zip keys xs))" by simp
    also have "map snd (zip keys xs) = xs" using len by simp
    finally show ?thesis .
  qed
  ultimately show ?thesis by blast
qed

text \<open>
  The local variable \<open>traces_list\<close> of \<open>preprocess_log\<close> holds, for each trace, a stream
  whose sort keys \<open>(timestamp, index)\<close> are in non-decreasing order.
\<close>

lemma trace_stream_sorted:
  assumes "trace_stream activity_key timestamp_key index_key trace = Inr stream"
  shows "\<exists>keys. traverse (stream_sort_key timestamp_key index_key) stream = Inr keys
           \<and> sorted keys \<and> length stream = length trace"
proof -
  from assms obtain built where
    built: "traverse (\<lambda>i. stream_event activity_key timestamp_key index_key (trace ! i) i)
       [0..<length trace] = Inr built"
    and srt: "py_sorted (stream_sort_key timestamp_key index_key) built = Inr stream"
    by (auto simp: trace_stream_def split: sum.splits)
  from py_sorted_sorted[OF srt] obtain keys where
    k: "traverse (stream_sort_key timestamp_key index_key) stream = Inr keys" "sorted keys"
      "length stream = length built"
    by blast
  have "length stream = length built" using k(3) .
  moreover have "length built = length trace" using traverse_zip[OF built] by simp
  ultimately show ?thesis using k by auto
qed

lemma traverse_all:
  "traverse f xs = Inr ys \<Longrightarrow> y \<in> set ys \<Longrightarrow> \<exists>x\<in>set xs. f x = Inr y"
proof (induction xs arbitrary: ys)
  case Nil
  then show ?case by simp
next
  case (Cons x xs)
  from Cons.prems(1) obtain z zs where z: "f x = Inr z" and zs: "traverse f xs = Inr zs"
    and ys: "ys = z # zs"
    by (auto split: sum.splits)
  show ?case using Cons.IH[OF zs] Cons.prems(2) z ys by auto
qed

lemma preprocess_local_sorted:
  assumes "preprocess_log_traces_list lib log0 (Some ps) = Inr traces_list"
    and "stream \<in> set traces_list"
  shows "\<exists>keys. traverse (stream_sort_key (get_param_value TIMESTAMP_KEY ps DEFAULT_TIMESTAMP_KEY)
            (get_param_value INDEX_KEY ps DEFAULT_INDEX_KEY)) stream = Inr keys \<and> sorted keys"
proof -
  from assms(1) obtain log2 where
    "traverse (trace_stream (get_param_value ACTIVITY_KEY ps DEFAULT_NAME_KEY)
        (get_param_value TIMESTAMP_KEY ps DEFAULT_TIMESTAMP_KEY)
        (get_param_value INDEX_KEY ps DEFAULT_INDEX_KEY)) log2 = Inr traces_list"
    by (auto simp: preprocess_log_traces_list_def Let_def split: sum.splits if_splits)
  from traverse_all[OF this assms(2)] obtain trace where
    "trace_stream (get_param_value ACTIVITY_KEY ps DEFAULT_NAME_KEY)
        (get_param_value TIMESTAMP_KEY ps DEFAULT_TIMESTAMP_KEY)
        (get_param_value INDEX_KEY ps DEFAULT_INDEX_KEY) trace = Inr stream"
    by blast
  from trace_stream_sorted[OF this] show ?thesis by blast
qed

text \<open>
  A log of one trace whose two events are out of order: the loop sorts them, the later event
  \<open>A\<close> with index 0 after the earlier event \<open>B\<close> with index 1.
\<close>

lemma preprocess_local_example:
  "preprocess_log_traces_list event_log_library
     [[[''concept:name'' \<mapsto> PyStr ''A'', ''time:timestamp'' \<mapsto> PyDatetime 5],
       [''concept:name'' \<mapsto> PyStr ''B'', ''time:timestamp'' \<mapsto> PyDatetime 3]]] None
   = Inr [[[''concept:name'' \<mapsto> PyStr ''B'', ''time:timestamp'' \<mapsto> PyNum 3,
            ''@@@index'' \<mapsto> PyNum 1],
           [''concept:name'' \<mapsto> PyStr ''A'', ''time:timestamp'' \<mapsto> PyNum 5,
            ''@@@index'' \<mapsto> PyNum 0]]]"
  by (simp add: preprocess_log_traces_list_def event_log_library_def get_param_value_def
      DEFAULT_NAME_KEY_def DEFAULT_TIMESTAMP_KEY_def DEFAULT_INDEX_KEY_def
      DEFAULT_TRACEID_KEY_def trace_stream_def stream_event_def getitem_def py_timestamp_def
      py_sorted_def stream_sort_key_def upt_rec Let_def)

section \<open>Claims about the entry point and the preprocessing\<close>

text \<open>
  C1. The claim is that for a log with zero cases \<open>apply\<close> returns two empty mappings and
  raises no exception. On the empty log the function raises NameError instead: it reads the
  unbound name \<open>traces_list\<close> before anything else is computed.
\<close>

theorem apply_empty_log_raises:
  "apply_trace_based cm ([] :: event list list) None = Inl (NameError ''traces_list'')"
  by (simp add: apply_trace_based_def Let_def load_traces_list)

text \<open>
  C2. For every log and every parameter dictionary (also without one), \<open>apply\<close> raises
  NameError for the name \<open>traces_list\<close>, which nothing in its scope binds, before any
  matrix is built, so it never returns the pair of graphs; and \<open>preprocess_log\<close>, which
  builds a \<open>traces_list\<close>, never returns it.
\<close>

theorem apply_always_raises_name_error:
  "apply_trace_based cm log0 parameters = Inl (NameError ''traces_list'')
   \<and> preprocess_log lib log1 parameters1 \<noteq> Inr (Some traces_list)"
  by (simp add: apply_trace_based_def Let_def load_traces_list preprocess_log_def split: sum.splits)

text \<open>
  C3. The claim is that \<open>preprocess_log\<close> returns the streams sorted by (timestamp, index).
  The function builds them (see \<open>preprocess_local_sorted\<close> and
  \<open>preprocess_local_example\<close>) and then ends without a return statement: on a log of one
  trace with two events it returns \<open>None\<close>.
\<close>

theorem preprocess_log_returns_none:
  "preprocess_log event_log_library
     [[[''concept:name'' \<mapsto> PyStr ''A'', ''time:timestamp'' \<mapsto> PyDatetime 5],
       [''concept:name'' \<mapsto> PyStr ''B'', ''time:timestamp'' \<mapsto> PyDatetime 3]]] None
   = Inr None"
  by (simp add: preprocess_log_def preprocess_local_example)

end
